theory Spec2Isabelle
  imports Main "HOL-Library.Word"
begin

unbundle bit_operations_syntax

section \<open>Data model (Filesystem.h)\<close>

text \<open>
  Pointers are addresses; address \<open>0\<close> is \<open>NULL\<close>.  The inode store is a partial
  map from addresses to inode records: \<open>calloc\<close> adds an address, \<open>free\<close> removes
  it, and reading or writing an address that is not in the store (\<open>NULL\<close> or a freed
  inode) is a memory fault.

  An \<open>entry\<close> chain (\<open>struct entryTM\<close> cells linked by \<open>next\<close>) is the list of its
  cells in chain order; the \<open>NULL\<close> chain is the empty list.  Every chain is reached
  through the \<open>data\<close> pointer of exactly one inode, which is where the model keeps it.
  For a regular file \<open>data\<close> is the byte buffer of the file; the namespace code only
  ever frees it, and the model keeps no bytes (\<open>data = []\<close>).
\<close>

type_synonym addr = nat

record entry =
  name :: string
  node :: addr

record inode =
  mode :: "32 word"
  uid :: "32 word"
  gid :: "32 word"
  nlink :: int
  nopen :: "32 word"
  isize :: "32 word"
  data :: "entry list"
  parent :: addr
  traversing :: bool

type_synonym heap = "addr \<Rightarrow> inode option"

text \<open>
  \<open>nlink\<close> is a C \<open>int\<close>: the field holds an integer between \<open>INT_MIN\<close> and
  \<open>INT_MAX\<close>, and \<open>++\<close> at \<open>INT_MAX\<close> or \<open>--\<close> at \<open>INT_MIN\<close> is undefined; the model
  stops there (\<open>IntOverflow\<close>).

  The outcomes of a call that does not deliver its result: the \<open>errno\<close> values the
  code sets; \<open>NoErrno\<close> for a \<open>NULL\<close> result that the call returned without setting
  \<open>errno\<close>; and the ways execution stops: an access through an invalid pointer
  (\<open>MemFault\<close>), a failed \<open>assert\<close> (\<open>AssertFail\<close>), a \<open>strcpy\<close> beyond its
  destination buffer (\<open>BufOverflow\<close>) and a signed overflow (\<open>IntOverflow\<close>).
\<close>

datatype error =
  ENOENT | ENOTDIR | ENOTEMPTY | EEXIST | ENOSPC | EINVAL | EPERM
  | NoErrno | MemFault | AssertFail | BufOverflow | IntOverflow

definition crashed :: "error \<Rightarrow> bool" where
  "crashed e = (e = MemFault \<or> e = AssertFail \<or> e = BufOverflow \<or> e = IntOverflow)"

definition INT_MAX :: int where "INT_MAX = 2147483647"
definition INT_MIN :: int where "INT_MIN = - 2147483648"

definition Split :: char where
  "Split = CHR ''/''"

text \<open>Constants of the platform headers \<open>sys/stat.h\<close> and \<open>limits.h\<close> (Linux).\<close>

definition S_IFMT :: "32 word" where "S_IFMT = 0xF000"
definition S_IFDIR :: "32 word" where "S_IFDIR = 0x4000"
definition S_IFREG :: "32 word" where "S_IFREG = 0x8000"
definition S_IRWXU :: "32 word" where "S_IRWXU = 0x1C0"
definition S_IRWXG :: "32 word" where "S_IRWXG = 0x38"
definition S_IRWXO :: "32 word" where "S_IRWXO = 0x7"
definition NAME_MAX :: nat where "NAME_MAX = 255"
definition PATH_MAX :: nat where "PATH_MAX = 4096"

definition isDir :: "inode \<Rightarrow> bool" where
  "isDir nd = (mode nd AND S_IFMT = S_IFDIR)"

section \<open>Path resolution (pathfind)\<close>

text \<open>
  A C string is the list of its bytes before the terminating \<open>NUL\<close>.  After the
  optional leading separator, \<open>n\<close> is the length of the first component; the entry
  loop returns on the first cell whose name has length \<open>n\<close> and equals the first
  \<open>n\<close> bytes of the path.
\<close>

function pathfind :: "heap \<Rightarrow> string \<Rightarrow> addr \<Rightarrow> error + addr" where
  "pathfind h path root =
     (let path1 = (if path \<noteq> [] \<and> hd path = Split then tl path else path) in
      if path1 = [] then (if root = 0 then Inl NoErrno else Inr root)
      else (case h root of
              None \<Rightarrow> Inl MemFault
            | Some r \<Rightarrow>
                if \<not> isDir r then Inl ENOTDIR
                else (let n = length (takeWhile (\<lambda>c. c \<noteq> Split) path1) in
                      case find (\<lambda>p. length (name p) = n \<and> take n path1 = name p) (data r) of
                        None \<Rightarrow> Inl ENOENT
                      | Some p \<Rightarrow> pathfind h (drop n path1) (node p))))"
  by pat_completeness auto
termination
proof (relation "measure (\<lambda>(h, path, root). length path)")
  show "wf (measure (\<lambda>(h, path, root). length path))" by simp
next
  fix h :: heap and path :: string and root :: addr and path1 r n p
  assume p1: "path1 = (if path \<noteq> [] \<and> hd path = Split then tl path else path)"
    and ne: "path1 \<noteq> []"
    and n: "n = length (takeWhile (\<lambda>c. c \<noteq> Split) path1)"
  show "((h, drop n path1, node p), (h, path, root)) \<in> measure (\<lambda>(h, path, root). length path)"
  proof (cases "path \<noteq> [] \<and> hd path = Split")
    case True
    with p1 have "path1 = tl path" by simp
    with True show ?thesis by (cases path) auto
  next
    case False
    with p1 have eq: "path1 = path" by simp
    with ne False have "hd path \<noteq> Split" and "path \<noteq> []" by auto
    hence "takeWhile (\<lambda>c. c \<noteq> Split) path \<noteq> []" by (cases path) auto
    with n eq have "0 < n" by simp
    with eq ne show ?thesis by simp
  qed
qed

declare pathfind.simps [simp del]

section \<open>Splitting a path into parent and basename\<close>

definition checkPath :: "string \<Rightarrow> error + unit" where
  "checkPath path =
     (if path = [] then Inl ENOENT
      else if hd path \<noteq> Split then Inl EINVAL
      else Inr ())"

text \<open>
  The loop \<open>while (result[--n] != Split) assert(n >= 0);\<close> of \<open>extractPrefix\<close>,
  entered with \<open>n\<close> before the decrement.  When no separator is left the next read
  is of \<open>result[-1]\<close>, outside the buffer.
\<close>

fun scanBack :: "string \<Rightarrow> nat \<Rightarrow> error + nat" where
  "scanBack result 0 = Inl MemFault"
| "scanBack result (Suc n) =
     (if result ! n \<noteq> Split then scanBack result n else Inr n)"

text \<open>
  \<open>extractPrefix\<close> copies the path into the caller's buffer of \<open>PATH_MAX\<close> bytes, cuts
  it at the last separator and returns the buffer and the position \<open>n\<close> of the cut.
  The test for an empty file name, \<open>strlen(result) - n == 1\<close>, is evaluated after
  the cut, as in the source.
\<close>

definition extractPrefix :: "string \<Rightarrow> error + (string \<times> nat)" where
  "extractPrefix path =
     (if PATH_MAX \<le> length path then Inl BufOverflow
      else (case scanBack path (length path) of
              Inl e \<Rightarrow> Inl e
            | Inr n \<Rightarrow>
                (let result = take n path in
                 if int (length result) - int n = 1 then Inl ENOENT
                 else Inr (result, n))))"

definition getParentDirectory :: "heap \<Rightarrow> string \<Rightarrow> addr \<Rightarrow> error + (addr \<times> string)" where
  "getParentDirectory h path root =
     (case checkPath path of
        Inl e \<Rightarrow> Inl e
      | Inr _ \<Rightarrow>
          (case extractPrefix path of
             Inl e \<Rightarrow> Inl e
           | Inr (dirPath, n) \<Rightarrow>
               (case pathfind h dirPath root of
                  Inl e \<Rightarrow> Inl e
                | Inr dirNode \<Rightarrow>
                    (case h dirNode of
                       None \<Rightarrow> Inl MemFault
                     | Some d \<Rightarrow>
                         if \<not> isDir d then Inl ENOTDIR
                         else Inr (dirNode, drop (n + 1) path)))))"

section \<open>A fresh filesystem (newFilesystem)\<close>

text \<open>What \<open>calloc(1, sizeof(inode))\<close> delivers: every field zero.\<close>

definition zero_inode :: inode where
  "zero_inode = \<lparr>mode = 0, uid = 0, gid = 0, nlink = 0, nopen = 0, isize = 0,
                 data = [], parent = 0, traversing = False\<rparr>"

text \<open>
  \<open>newFilesystem\<close> does not test its allocations; the model is of the run in which
  they succeed, \<open>root\<close> being the address \<open>calloc\<close> returned for the root inode.  The
  \<open>Filesystem\<close> handle holds nothing but that address.
\<close>

definition newFilesystem :: "addr \<Rightarrow> heap" where
  "newFilesystem root =
     (let r0 = zero_inode\<lparr>mode := S_IRWXO OR S_IRWXG OR S_IRWXU OR S_IFDIR,
                           nlink := 1, parent := root\<rparr>;
          ddot = \<lparr>name = ''..'', node = root\<rparr>;
          r1 = r0\<lparr>nlink := nlink r0 + 1\<rparr>;
          dot = \<lparr>name = ''.'', node = root\<rparr>;
          r2 = r1\<lparr>nlink := nlink r1 + 1\<rparr>
      in Map.empty(root \<mapsto> r2\<lparr>data := [dot, ddot]\<rparr>))"

section \<open>Entry-list primitives (addEntry, removeEntry)\<close>

text \<open>
  \<open>addEntry\<close> walks to the last cell of a chain and links a cell obtained from
  \<open>calloc\<close> behind it; \<open>alloc\<close> tells whether that \<open>calloc\<close> delivered a cell.  A
  \<open>NULL\<close> chain is dereferenced at once.  The new cell has the given name (copied
  into its buffer of \<open>NAME_MAX\<close> bytes) and a \<open>NULL\<close> node; it is the last cell of
  the chain returned, which is how the model identifies the pointer the C function
  returns.
\<close>

fun addEntry :: "bool \<Rightarrow> entry list \<Rightarrow> string \<Rightarrow> error + entry list" where
  "addEntry alloc [] nm = Inl MemFault"
| "addEntry alloc [p] nm =
     (if \<not> alloc then Inl ENOSPC
      else if NAME_MAX \<le> length nm then Inl BufOverflow
      else Inr [p, \<lparr>name = nm, node = 0\<rparr>])"
| "addEntry alloc (p # q # rest) nm =
     (case addEntry alloc (q # rest) nm of
        Inl e \<Rightarrow> Inl e
      | Inr list \<Rightarrow> Inr (p # list))"

text \<open>
  \<open>removeEntry\<close> compares the name with the cell after \<open>p\<close>, for every cell \<open>p\<close> of the
  chain that has a successor, starting with the first cell; on the first match it
  unlinks and frees that successor and returns its node.
\<close>

fun removeEntry :: "entry list \<Rightarrow> string \<Rightarrow> error + (addr \<times> entry list)" where
  "removeEntry [] nm = Inl MemFault"
| "removeEntry [p] nm = Inl ENOENT"
| "removeEntry (p # q # rest) nm =
     (if nm = name q then Inr (node q, p # rest)
      else (case removeEntry (q # rest) nm of
              Inl e \<Rightarrow> Inl e
            | Inr (result, list) \<Rightarrow> Inr (result, p # list)))"

text \<open>The assignment \<open>p->node = nd\<close> for the cell \<open>p\<close> that \<open>addEntry\<close> returned.\<close>

definition setLastNode :: "entry list \<Rightarrow> addr \<Rightarrow> entry list" where
  "setLastNode list nd = butlast list @ [(last list)\<lparr>node := nd\<rparr>]"

definition setNewEntry :: "heap \<Rightarrow> addr \<Rightarrow> addr \<Rightarrow> heap" where
  "setNewEntry h dirNode nd =
     (case h dirNode of
        None \<Rightarrow> h
      | Some d \<Rightarrow> h(dirNode \<mapsto> d\<lparr>data := setLastNode (data d) nd\<rparr>))"

section \<open>Adding, moving and releasing a node\<close>

text \<open>
  The operations take the store and return their result together with the store they
  leave behind.  \<open>alloc\<close> is the outcome of the one \<open>calloc\<close> inside \<open>addEntry\<close>.
\<close>

definition addNode :: "bool \<Rightarrow> heap \<Rightarrow> string \<Rightarrow> addr \<Rightarrow> addr \<Rightarrow> (error + addr) \<times> heap" where
  "addNode alloc h path root nd =
     (case getParentDirectory h path root of
        Inl e \<Rightarrow> (Inl e, h)
      | Inr (dirNode, file) \<Rightarrow>
          (case pathfind h file dirNode of
             Inr found \<Rightarrow> (Inl EEXIST, h)
           | Inl e \<Rightarrow>
               if crashed e then (Inl e, h)
               else (case h dirNode of
                       None \<Rightarrow> (Inl MemFault, h)
                     | Some d \<Rightarrow>
                         (case addEntry alloc (data d) file of
                            Inl e \<Rightarrow> (Inl e, h)
                          | Inr list \<Rightarrow>
                              (let h1 = h(dirNode \<mapsto> d\<lparr>data := list\<rparr>) in
                               case h1 nd of
                                 None \<Rightarrow> (Inl MemFault, h1)
                               | Some n \<Rightarrow>
                                   if nlink n = INT_MAX then (Inl IntOverflow, h1)
                                   else
                                     (let h2 = h1(nd \<mapsto> n\<lparr>nlink := nlink n + 1,
                                                   parent := (if parent n = 0 then dirNode
                                                              else parent n)\<rparr>)
                                      in (Inr nd, setNewEntry h2 dirNode nd)))))))"

definition moveNode :: "bool \<Rightarrow> heap \<Rightarrow> string \<Rightarrow> string \<Rightarrow> addr \<Rightarrow> (error + addr) \<times> heap" where
  "moveNode alloc h path newpath root =
     (case getParentDirectory h path root of
        Inl e \<Rightarrow> (Inl e, h)
      | Inr (oldDirNode, oldFile) \<Rightarrow>
          (case getParentDirectory h newpath root of
             Inl e \<Rightarrow> (Inl e, h)
           | Inr (newDirNode, newFile) \<Rightarrow>
               (case h oldDirNode of
                  None \<Rightarrow> (Inl MemFault, h)
                | Some od \<Rightarrow>
                    (case removeEntry (data od) oldFile of
                       Inl e \<Rightarrow> (Inl e, h)
                     | Inr (nd, list) \<Rightarrow>
                         (let h1 = h(oldDirNode \<mapsto> od\<lparr>data := list\<rparr>) in
                          if nd = 0 then (Inl NoErrno, h1)
                          else (case h1 newDirNode of
                                  None \<Rightarrow> (Inl MemFault, h1)
                                | Some nw \<Rightarrow>
                                    (case addEntry alloc (data nw) newFile of
                                       Inl e \<Rightarrow> (Inl e, h1)
                                     | Inr list2 \<Rightarrow>
                                         (Inr nd,
                                          setNewEntry (h1(newDirNode \<mapsto> nw\<lparr>data := list2\<rparr>))
                                            newDirNode nd))))))))"

text \<open>
  \<open>isEmpty\<close> counts the cells of a directory's chain: more than two is not empty,
  exactly two is empty, fewer fails the assertion.
\<close>

definition isEmpty :: "inode \<Rightarrow> error + bool" where
  "isEmpty dir =
     (if 2 < length (data dir) then Inr False
      else if length (data dir) \<noteq> 2 then Inl AssertFail
      else Inr True)"

text \<open>
  \<open>releaseNode\<close>.  The node found by \<open>pathfind\<close> is used without a test: \<open>isDir(node)\<close>
  reads through it.  The result of \<open>removeEntry(node->data, "..")\<close> is not looked at.
  The entry in the parent is removed last, after the node may have been freed.
\<close>

definition releaseNode :: "heap \<Rightarrow> string \<Rightarrow> addr \<Rightarrow> (error + unit) \<times> heap" where
  "releaseNode h path root =
     (case getParentDirectory h path root of
        Inl e \<Rightarrow> (Inl e, h)
      | Inr (dirNode, file) \<Rightarrow>
          (case (case pathfind h file dirNode of
                   Inl e \<Rightarrow> Inl (if crashed e then e else MemFault)
                 | Inr nd \<Rightarrow>
                     (case h nd of
                        None \<Rightarrow> Inl MemFault
                      | Some n \<Rightarrow>
                          if isDir n then
                            (case isEmpty n of
                               Inl e \<Rightarrow> Inl e
                             | Inr False \<Rightarrow> Inl ENOTEMPTY
                             | Inr True \<Rightarrow>
                                 if nlink n \<noteq> 2 then Inl AssertFail
                                 else (let h1 = (case removeEntry (data n) ''..'' of
                                                   Inl e \<Rightarrow> h
                                                 | Inr (r, list) \<Rightarrow> h(nd \<mapsto> n\<lparr>data := list\<rparr>))
                                       in case h1 dirNode of
                                            None \<Rightarrow> Inl MemFault
                                          | Some d \<Rightarrow>
                                              if nlink d = INT_MIN then Inl IntOverflow
                                              else
                                                (let h2 = h1(dirNode \<mapsto> d\<lparr>nlink := nlink d - 1\<rparr>) in
                                                 case h2 nd of
                                                   None \<Rightarrow> Inl MemFault
                                                 | Some n2 \<Rightarrow>
                                                     if data n2 = [] then Inl MemFault
                                                     else if tl (data n2) \<noteq> [] then Inl AssertFail
                                                     else Inr (h2(nd := None)))))
                          else if nlink n = INT_MIN then Inl IntOverflow
                          else
                            (let h1 = h(nd \<mapsto> n\<lparr>nlink := nlink n - 1\<rparr>) in
                             if nlink n - 1 = 0 \<and> nopen n = 0 then Inr (h1(nd := None))
                             else Inr h1))) of
             Inl e \<Rightarrow> (Inl e, h)
           | Inr h3 \<Rightarrow>
               (case h3 dirNode of
                  None \<Rightarrow> (Inl MemFault, h3)
                | Some d \<Rightarrow>
                    (case removeEntry (data d) file of
                       Inl e \<Rightarrow> (Inl e, h3)
                     | Inr (r, list) \<Rightarrow>
                         (let h4 = h3(dirNode \<mapsto> d\<lparr>data := list\<rparr>) in
                          if r = 0 then (Inl NoErrno, h4) else (Inr (), h4))))))"

section \<open>Whole-tree teardown (releaseAll)\<close>

text \<open>
  \<open>releaseAll\<close> calls itself from inside its loop, on a store that the earlier calls
  have changed.  The model runs it with fuel: the first argument bounds the depth of
  calls and loop rounds still allowed, and \<open>None\<close> is the run that needs more.
  \<open>Some (Inl MemFault)\<close> is a run that stops at an access to an inode that is not
  in the store.

  \<open>releaseLoop\<close> is the body of \<open>if (isDir(root)) { ... }\<close> from the point where
  \<open>p = root->data\<close> has been read: while the first cell \<open>p\<close> has a successor, tear
  down the successor's node, unlink and free the successor; then tear down the node
  of \<open>p\<close> itself.

  The second component of the state is not in the source: it records, in order, the
  inodes whose visit got past the test of the \<open>traversing\<close> mark.
\<close>

fun releaseAll :: "nat \<Rightarrow> heap \<times> addr list \<Rightarrow> addr \<Rightarrow> (error + heap \<times> addr list) option"
  and releaseLoop :: "nat \<Rightarrow> heap \<times> addr list \<Rightarrow> addr \<Rightarrow> (error + heap \<times> addr list) option"
where
  "releaseAll 0 s root = None"
| "releaseAll (Suc k) (h, visited) root =
     (case h root of
        None \<Rightarrow> Some (Inl MemFault)
      | Some r \<Rightarrow>
          if nlink r = INT_MIN then Some (Inl IntOverflow)
          else if traversing r then Some (Inr (h(root \<mapsto> r\<lparr>nlink := nlink r - 1\<rparr>), visited))
          else
            (let h2 = h(root \<mapsto> r\<lparr>nlink := nlink r - 1, traversing := True\<rparr>);
                 s2 = (h2, visited @ [root])
             in case (if isDir r then releaseLoop k s2 root else Some (Inr s2)) of
                  None \<Rightarrow> None
                | Some (Inl e) \<Rightarrow> Some (Inl e)
                | Some (Inr (h3, visited3)) \<Rightarrow>
                    (case h3 root of
                       None \<Rightarrow> Some (Inl MemFault)
                     | Some r3 \<Rightarrow>
                         if nlink r3 = 0 then Some (Inr (h3(root := None), visited3))
                         else Some (Inr (h3(root \<mapsto> r3\<lparr>traversing := False\<rparr>), visited3)))))"
| "releaseLoop 0 s root = None"
| "releaseLoop (Suc k) (h, visited) root =
     (case h root of
        None \<Rightarrow> Some (Inl MemFault)
      | Some r \<Rightarrow>
          (case data r of
             [] \<Rightarrow> Some (Inl MemFault)
           | [p] \<Rightarrow> releaseAll k (h, visited) (node p)
           | p # q # rest \<Rightarrow>
               (case releaseAll k (h, visited) (node q) of
                  None \<Rightarrow> None
                | Some (Inl e) \<Rightarrow> Some (Inl e)
                | Some (Inr (h1, visited1)) \<Rightarrow>
                    (case h1 root of
                       None \<Rightarrow> Some (Inl MemFault)
                     | Some r1 \<Rightarrow>
                         (case data r1 of
                            p1 # q1 # rest1 \<Rightarrow>
                              releaseLoop k (h1(root \<mapsto> r1\<lparr>data := p1 # rest1\<rparr>), visited1) root
                          | _ \<Rightarrow> Some (Inl MemFault))))))"

section \<open>The callers' protocols (main.c)\<close>

text \<open>
  \<open>ramMkdir\<close>, \<open>ramMknod\<close> and \<open>ramLink\<close>.  \<open>a\<close> is the address \<open>calloc\<close> returned for
  the new inode (\<open>0\<close> when it failed), \<open>alloc\<close> the outcome of the \<open>calloc\<close> inside
  \<open>addEntry\<close>.  The two \<open>malloc\<close> calls for the cells \<open>ddot\<close> and \<open>dot\<close> are not tested
  by the code; the model is of the run in which they succeed.  An integer result
  \<open>-errno\<close> is the error, \<open>0\<close> is \<open>Inr ()\<close>.
\<close>

definition ramMkdir ::
  "addr \<Rightarrow> bool \<Rightarrow> 32 word \<Rightarrow> 32 word \<Rightarrow> heap \<Rightarrow> addr \<Rightarrow> string \<Rightarrow> 32 word \<Rightarrow> (error + unit) \<times> heap" where
  "ramMkdir a alloc cuid cgid h root path md =
     (if a = 0 then (Inl ENOSPC, h)
      else (case addNode alloc (h(a \<mapsto> zero_inode\<lparr>mode := md OR S_IFDIR, uid := cuid, gid := cgid\<rparr>))
                   path root a of
              (Inl e, h1) \<Rightarrow> (Inl e, h1)
            | (Inr nd, h1) \<Rightarrow>
                (case h1 nd of
                   None \<Rightarrow> (Inl MemFault, h1)
                 | Some n \<Rightarrow>
                     (let ddot = \<lparr>name = ''..'', node = parent n\<rparr> in
                      case h1 (parent n) of
                        None \<Rightarrow> (Inl MemFault, h1)
                      | Some pn \<Rightarrow>
                          if nlink pn = INT_MAX then (Inl IntOverflow, h1)
                          else
                            (let h2 = h1(parent n \<mapsto> pn\<lparr>nlink := nlink pn + 1\<rparr>);
                                 dot = \<lparr>name = ''.'', node = nd\<rparr>
                             in case h2 nd of
                                  None \<Rightarrow> (Inl MemFault, h2)
                                | Some n2 \<Rightarrow>
                                    if nlink n2 = INT_MAX then (Inl IntOverflow, h2)
                                    else (Inr (), h2(nd \<mapsto> n2\<lparr>nlink := nlink n2 + 1,
                                                          data := [dot, ddot]\<rparr>)))))))"

definition ramMknod ::
  "addr \<Rightarrow> bool \<Rightarrow> 32 word \<Rightarrow> 32 word \<Rightarrow> heap \<Rightarrow> addr \<Rightarrow> string \<Rightarrow> 32 word \<Rightarrow> (error + unit) \<times> heap" where
  "ramMknod a alloc cuid cgid h root path md =
     (if a = 0 then (Inl ENOSPC, h)
      else (case addNode alloc (h(a \<mapsto> zero_inode\<lparr>mode := md OR S_IFREG, uid := cuid, gid := cgid\<rparr>))
                   path root a of
              (Inl e, h1) \<Rightarrow> (Inl e, h1)
            | (Inr nd, h1) \<Rightarrow> (Inr (), h1)))"

definition ramLink :: "bool \<Rightarrow> heap \<Rightarrow> addr \<Rightarrow> string \<Rightarrow> string \<Rightarrow> (error + unit) \<times> heap" where
  "ramLink alloc h root path newpath =
     (case pathfind h path root of
        Inl e \<Rightarrow> (Inl e, h)
      | Inr nd \<Rightarrow>
          (case h nd of
             None \<Rightarrow> (Inl MemFault, h)
           | Some n \<Rightarrow>
               if isDir n then (Inl EPERM, h)
               else (case addNode alloc h newpath root nd of
                       (Inl e, h1) \<Rightarrow> (Inl e, h1)
                     | (Inr r, h1) \<Rightarrow> (Inr (), h1))))"

section \<open>Example stores\<close>

text \<open>
  Stores built by successful calls from the fresh filesystem whose root inode is at
  address \<open>1\<close>, with every allocation succeeding: a regular file \<open>/f\<close> (inode \<open>2\<close>,
  mode \<open>0644\<close>); the same with a second link \<open>/g\<close> to that file.
\<close>

definition store_file :: heap where
  "store_file = snd (ramMknod 2 True 0 0 (newFilesystem 1) 1 ''/f'' 0x1A4)"


text \<open>
  A store in which a directory was moved: \<open>mkdir /a\<close> (inode \<open>2\<close>), \<open>mkdir /a/c\<close>
  (inode \<open>3\<close>), move \<open>/a/c\<close> to \<open>/c\<close>, \<open>mkdir /b\<close> (inode \<open>4\<close>), move \<open>/b\<close> to \<open>/a/b\<close>,
  release \<open>/a/b\<close>.  Directories are made with mode \<open>0755\<close>.
\<close>

definition store_a :: heap where
  "store_a = snd (ramMkdir 2 True 0 0 (newFilesystem 1) 1 ''/a'' 0x1ED)"

definition store_ac :: heap where
  "store_ac = snd (ramMkdir 3 True 0 0 store_a 1 ''/a/c'' 0x1ED)"

definition store_c :: heap where
  "store_c = snd (moveNode True store_ac ''/a/c'' ''/c'' 1)"

definition store_cb :: heap where
  "store_cb = snd (ramMkdir 4 True 0 0 store_c 1 ''/b'' 0x1ED)"

definition store_ab :: heap where
  "store_ab = snd (moveNode True store_cb ''/b'' ''/a/b'' 1)"

definition store_stale :: heap where
  "store_stale = snd (releaseNode store_ab ''/a/b'' 1)"


section \<open>Notions used in the statements\<close>




text \<open>
  The kind of the inode at an address (\<open>False\<close> where the store has none); the cells
  of a directory that are child subdirectories: those not named \<open>.\<close> or \<open>..\<close> whose
  node is a directory.
\<close>

definition is_dir :: "heap \<Rightarrow> addr \<Rightarrow> bool" where
  "is_dir h a = (case h a of None \<Rightarrow> False | Some n \<Rightarrow> isDir n)"

definition children :: "heap \<Rightarrow> inode \<Rightarrow> entry list" where
  "children h n =
     filter (\<lambda>e. name e \<noteq> ''.'' \<and> name e \<noteq> ''..'' \<and> is_dir h (node e)) (data n)"

text \<open>
  The name cells of an inode are the cells after the first two of its chain.
  \<open>nedges h x\<close> counts the name cells in the store that point at \<open>x\<close>, and
  \<open>dotdot h x\<close> is the node of the second cell of \<open>x\<close>.
\<close>

definition name_cells :: "inode \<Rightarrow> entry list" where
  "name_cells n = drop 2 (data n)"

definition cells_to :: "heap \<Rightarrow> addr \<Rightarrow> addr \<Rightarrow> nat" where
  "cells_to h x d =
     (case h d of None \<Rightarrow> 0 | Some n \<Rightarrow> count_list (map node (name_cells n)) x)"

definition nedges :: "heap \<Rightarrow> addr \<Rightarrow> nat" where
  "nedges h x = sum (cells_to h x) (dom h)"

definition dotdot :: "heap \<Rightarrow> addr \<Rightarrow> addr" where
  "dotdot h x =
     (case h x of
        None \<Rightarrow> 0
      | Some n \<Rightarrow> (case data n of p # q # rest \<Rightarrow> node q | _ \<Rightarrow> 0))"

text \<open>
  The invariant of the store.  A directory starts with the cells \<open>.\<close>, pointing at
  itself, and \<open>..\<close>, pointing at a directory (the root's at the root); its name cells
  point at inodes of the store, and those that point at a directory point at one
  whose \<open>..\<close> comes back; its link count is 2 (the root's 3) plus the number of its
  child subdirectories; exactly one name cell of the store points at it (none at
  the root).  An inode that is not a directory has no cells, and its link count is
  the number of name cells that point at it.
\<close>

definition node_ok :: "addr \<Rightarrow> heap \<Rightarrow> addr \<Rightarrow> inode \<Rightarrow> bool" where
  "node_ok root h a n =
     (if isDir n then
        (\<exists>p rest. data n = \<lparr>name = ''.'', node = a\<rparr> # \<lparr>name = ''..'', node = p\<rparr> # rest)
        \<and> is_dir h (dotdot h a) \<and> (a = root \<longrightarrow> dotdot h a = root)
        \<and> (\<forall>e\<in>set (name_cells n).
              h (node e) \<noteq> None \<and> (is_dir h (node e) \<longrightarrow> dotdot h (node e) = a))
        \<and> nlink n = (if a = root then 3 else 2) + int (length (children h n))
        \<and> nedges h a = (if a = root then 0 else 1)
      else data n = [] \<and> nlink n = int (nedges h a))"

definition store_inv :: "addr \<Rightarrow> heap \<Rightarrow> bool" where
  "store_inv root h =
     (finite (dom h) \<and> h 0 = None \<and> is_dir h root
      \<and> (\<forall>a n. h a = Some n \<longrightarrow> node_ok root h a n))"

text \<open>
  The stores built from a fresh filesystem by calls that succeed: \<open>ramMkdir\<close> (with a
  mode that has no file-type bits of its own), \<open>ramMknod\<close>, \<open>ramLink\<close>, \<open>releaseNode\<close>,
  and \<open>moveNode\<close> of an inode that is not a directory.  \<open>calloc\<close> returns an address
  that is not in use.
\<close>

inductive reach :: "addr \<Rightarrow> heap \<Rightarrow> bool" for root :: addr where
  fresh: "root \<noteq> 0 \<Longrightarrow> reach root (newFilesystem root)"
| mkdir: "reach root h \<Longrightarrow> h a = None \<Longrightarrow> (md OR S_IFDIR) AND S_IFMT = S_IFDIR
          \<Longrightarrow> ramMkdir a alloc cuid cgid h root path md = (Inr (), h') \<Longrightarrow> reach root h'"
| mknod: "reach root h \<Longrightarrow> h a = None
          \<Longrightarrow> ramMknod a alloc cuid cgid h root path md = (Inr (), h') \<Longrightarrow> reach root h'"
| link: "reach root h \<Longrightarrow> ramLink alloc h root path newpath = (Inr (), h') \<Longrightarrow> reach root h'"
| release: "reach root h \<Longrightarrow> releaseNode h path root = (Inr (), h') \<Longrightarrow> reach root h'"
| move: "reach root h \<Longrightarrow> moveNode alloc h path newpath root = (Inr nd, h')
          \<Longrightarrow> \<not> is_dir h nd \<Longrightarrow> reach root h'"

section \<open>Properties\<close>

subsection \<open>Evaluation rules\<close>

lemmas consts_defs =
  S_IFMT_def S_IFDIR_def S_IFREG_def S_IRWXU_def S_IRWXG_def S_IRWXO_def
  NAME_MAX_def PATH_MAX_def Split_def INT_MAX_def INT_MIN_def

lemmas op_defs =
  getParentDirectory_def checkPath_def extractPrefix_def pathfind.simps zero_inode_def
  isDir_def addNode_def moveNode_def releaseNode_def ramMkdir_def ramMknod_def ramLink_def
  setNewEntry_def setLastNode_def isEmpty_def crashed_def newFilesystem_def Let_def

subsection \<open>Path splitting and resolution\<close>

lemma scanBack_Inr:
  "scanBack path k = Inr n \<Longrightarrow> n < k \<and> path ! n = Split \<and> (\<forall>i. n < i \<and> i < k \<longrightarrow> path ! i \<noteq> Split)"
proof (induction k)
  case 0
  then show ?case by simp
next
  case (Suc k)
  show ?case
  proof (cases "path ! k = Split")
    case True
    with Suc.prems show ?thesis by auto
  next
    case False
    with Suc.prems have "scanBack path k = Inr n" by simp
    from Suc.IH[OF this] False show ?thesis
      by (auto simp: less_Suc_eq)
  qed
qed

lemma scanBack_crash: "scanBack path k = Inl e \<Longrightarrow> e = MemFault"
  by (induction k) (auto split: if_splits)

lemma extractPrefix_Inr:
  assumes "extractPrefix path = Inr (dirPath, n)"
  shows "n < length path \<and> path ! n = Split \<and> dirPath = take n path
         \<and> Split \<notin> set (drop (Suc n) path) \<and> length path < PATH_MAX"
proof -
  from assms have sb: "scanBack path (length path) = Inr n" and dp: "dirPath = take n path"
    and len: "length path < PATH_MAX"
    by (auto simp: extractPrefix_def Let_def split: if_splits sum.splits)
  from scanBack_Inr[OF sb] have n: "n < length path" and at: "path ! n = Split"
    and after: "\<forall>i. n < i \<and> i < length path \<longrightarrow> path ! i \<noteq> Split" by auto
  have "Split \<notin> set (drop (Suc n) path)"
  proof
    assume "Split \<in> set (drop (Suc n) path)"
    then obtain j where "j < length (drop (Suc n) path)" "drop (Suc n) path ! j = Split"
      by (auto simp: in_set_conv_nth)
    with after show False by (auto simp: nth_drop)
  qed
  with n at dp len show ?thesis by simp
qed

lemma extractPrefix_not_ENOENT: "extractPrefix path \<noteq> Inl ENOENT"
proof -
  have "\<And>n. scanBack path (length path) = Inr n \<Longrightarrow> int (length (take n path)) - int n \<noteq> 1"
    using scanBack_Inr by fastforce
  thus ?thesis
    by (auto simp: extractPrefix_def Let_def split: sum.splits dest: scanBack_crash)
qed

lemma getParentDirectory_Inr:
  assumes "getParentDirectory h path root = Inr (dirNode, file)"
  shows "\<exists>d n. h dirNode = Some d \<and> isDir d \<and> Split \<notin> set file
          \<and> path \<noteq> [] \<and> hd path = Split \<and> length path < PATH_MAX
          \<and> n < length path \<and> path ! n = Split \<and> file = drop (Suc n) path
          \<and> pathfind h (take n path) root = Inr dirNode"
proof -
  from assms obtain dirPath n d where cp: "checkPath path = Inr ()"
    and ep: "extractPrefix path = Inr (dirPath, n)"
    and pf: "pathfind h dirPath root = Inr dirNode"
    and hd: "h dirNode = Some d" and dir: "isDir d" and fl: "file = drop (n + 1) path"
    by (auto simp: getParentDirectory_def split: sum.splits option.splits if_splits)
  from cp have "path \<noteq> []" "hd path = Split"
    by (auto simp: checkPath_def split: if_splits)
  with extractPrefix_Inr[OF ep] pf hd dir fl show ?thesis by auto
qed

lemma pathfind_skip:
  "p = [] \<or> hd p \<noteq> Split \<Longrightarrow> pathfind h (Split # p) start = pathfind h p start"
  by (subst pathfind.simps, subst (2) pathfind.simps) auto

lemma pathfind_Nil: "pathfind h [] start = (if start = 0 then Inl NoErrno else Inr start)"
  by (subst pathfind.simps) simp

lemma pathfind_component:
  assumes "c \<noteq> []" "Split \<notin> set c" "rest = [] \<or> hd rest = Split"
  shows "pathfind h (c @ rest) start =
    (case h start of None \<Rightarrow> Inl MemFault
     | Some d \<Rightarrow> if \<not> isDir d then Inl ENOTDIR
        else (case find (\<lambda>e. name e = c) (data d) of
                None \<Rightarrow> Inl ENOENT
              | Some e \<Rightarrow> pathfind h rest (node e)))"
proof -
  have hd: "hd (c @ rest) \<noteq> Split" using assms by (cases c) auto
  have "takeWhile (\<lambda>x. x \<noteq> Split) (c @ rest) = c @ takeWhile (\<lambda>x. x \<noteq> Split) rest"
    using assms by (intro takeWhile_append2) auto
  moreover have "takeWhile (\<lambda>x. x \<noteq> Split) rest = []"
    using assms by (cases rest) auto
  ultimately have tw: "takeWhile (\<lambda>x. x \<noteq> Split) (c @ rest) = c" by simp
  have f: "(\<lambda>p. length (name p) = length c \<and> c = name p) = (\<lambda>e. name e = c)"
    by auto
  show ?thesis
    using assms hd
    by (subst pathfind.simps) (simp add: tw f Let_def split: option.splits)
qed

lemma pathfind_single:
  assumes "Split \<notin> set file" "h d = Some dn" "isDir dn"
  shows "pathfind h file d =
           (if file = [] then (if d = 0 then Inl NoErrno else Inr d)
            else (case find (\<lambda>e. name e = file) (data dn) of
                    None \<Rightarrow> Inl ENOENT
                  | Some e \<Rightarrow> if node e = 0 then Inl NoErrno else Inr (node e)))"
proof (cases "file = []")
  case True
  then show ?thesis by (simp add: pathfind_Nil)
next
  case False
  with assms pathfind_component[of "file" "[]" h d] show ?thesis
    by (simp add: pathfind_Nil split: option.splits)
qed

lemma addEntry_eq:
  "addEntry alloc list nm =
     (if list = [] then Inl MemFault
      else if \<not> alloc then Inl ENOSPC
      else if NAME_MAX \<le> length nm then Inl BufOverflow
      else Inr (list @ [\<lparr>name = nm, node = 0\<rparr>]))"
  by (induction alloc list nm rule: addEntry.induct) auto

lemma setLastNode_snoc: "setLastNode (list @ [e]) nd = list @ [e\<lparr>node := nd\<rparr>]"
  by (simp add: setLastNode_def)

lemma removeEntry_found:
  "\<forall>x\<in>set pre. name x \<noteq> nm \<Longrightarrow> name e = nm
     \<Longrightarrow> removeEntry (p # pre @ e # post) nm = Inr (node e, p # pre @ post)"
  by (induction pre arbitrary: p) auto

lemma removeEntry_absent:
  "\<forall>x\<in>set es. name x \<noteq> nm \<Longrightarrow> removeEntry (p # es) nm = Inl ENOENT"
  by (induction es arbitrary: p) auto

subsection \<open>The example stores, evaluated\<close>

lemma fresh_eq:
  "newFilesystem 1 =
     [1 \<mapsto> \<lparr>mode = 0x41FF, uid = 0, gid = 0, nlink = 3, nopen = 0, isize = 0,
             data = [\<lparr>name = ''.'', node = 1\<rparr>, \<lparr>name = ''..'', node = 1\<rparr>],
             parent = 1, traversing = False\<rparr>]"
  by (simp add: newFilesystem_def zero_inode_def consts_defs)

lemma store_file_eq:
  "store_file =
     [2 \<mapsto> \<lparr>mode = 0x81A4, uid = 0, gid = 0, nlink = 1, nopen = 0, isize = 0,
             data = [], parent = 1, traversing = False\<rparr>,
      1 \<mapsto> \<lparr>mode = 0x41FF, uid = 0, gid = 0, nlink = 3, nopen = 0, isize = 0,
             data = [\<lparr>name = ''.'', node = 1\<rparr>, \<lparr>name = ''..'', node = 1\<rparr>,
                     \<lparr>name = ''f'', node = 2\<rparr>],
             parent = 1, traversing = False\<rparr>]"
  by (simp add: store_file_def fresh_eq op_defs consts_defs)

lemma store_file_ok:
  "fst (ramMknod 2 True 0 0 (newFilesystem 1) 1 ''/f'' 0x1A4) = Inr ()"
  by (simp add: fresh_eq op_defs consts_defs)


lemma store_links_ok: "fst (ramLink True store_file 1 ''/f'' ''/g'') = Inr ()"
  by (simp add: store_file_eq op_defs consts_defs)


lemma store_a_eq:
  "store_a =
     [1 \<mapsto> \<lparr>mode = 0x41FF, uid = 0, gid = 0, nlink = 4, nopen = 0, isize = 0,
             data = [\<lparr>name = ''.'', node = 1\<rparr>, \<lparr>name = ''..'', node = 1\<rparr>,
                     \<lparr>name = ''a'', node = 2\<rparr>],
             parent = 1, traversing = False\<rparr>,
      2 \<mapsto> \<lparr>mode = 0x41ED, uid = 0, gid = 0, nlink = 2, nopen = 0, isize = 0,
             data = [\<lparr>name = ''.'', node = 2\<rparr>, \<lparr>name = ''..'', node = 1\<rparr>],
             parent = 1, traversing = False\<rparr>]"
  by (rule ext) (simp add: store_a_def fresh_eq op_defs consts_defs)

lemma store_ac_eq:
  "store_ac =
     [1 \<mapsto> \<lparr>mode = 0x41FF, uid = 0, gid = 0, nlink = 4, nopen = 0, isize = 0,
             data = [\<lparr>name = ''.'', node = 1\<rparr>, \<lparr>name = ''..'', node = 1\<rparr>,
                     \<lparr>name = ''a'', node = 2\<rparr>],
             parent = 1, traversing = False\<rparr>,
      2 \<mapsto> \<lparr>mode = 0x41ED, uid = 0, gid = 0, nlink = 3, nopen = 0, isize = 0,
             data = [\<lparr>name = ''.'', node = 2\<rparr>, \<lparr>name = ''..'', node = 1\<rparr>,
                     \<lparr>name = ''c'', node = 3\<rparr>],
             parent = 1, traversing = False\<rparr>,
      3 \<mapsto> \<lparr>mode = 0x41ED, uid = 0, gid = 0, nlink = 2, nopen = 0, isize = 0,
             data = [\<lparr>name = ''.'', node = 3\<rparr>, \<lparr>name = ''..'', node = 2\<rparr>],
             parent = 2, traversing = False\<rparr>]"
  by (rule ext) (simp add: store_ac_def store_a_eq op_defs consts_defs)

lemma store_c_eq:
  "store_c =
     [1 \<mapsto> \<lparr>mode = 0x41FF, uid = 0, gid = 0, nlink = 4, nopen = 0, isize = 0,
             data = [\<lparr>name = ''.'', node = 1\<rparr>, \<lparr>name = ''..'', node = 1\<rparr>,
                     \<lparr>name = ''a'', node = 2\<rparr>, \<lparr>name = ''c'', node = 3\<rparr>],
             parent = 1, traversing = False\<rparr>,
      2 \<mapsto> \<lparr>mode = 0x41ED, uid = 0, gid = 0, nlink = 3, nopen = 0, isize = 0,
             data = [\<lparr>name = ''.'', node = 2\<rparr>, \<lparr>name = ''..'', node = 1\<rparr>],
             parent = 1, traversing = False\<rparr>,
      3 \<mapsto> \<lparr>mode = 0x41ED, uid = 0, gid = 0, nlink = 2, nopen = 0, isize = 0,
             data = [\<lparr>name = ''.'', node = 3\<rparr>, \<lparr>name = ''..'', node = 2\<rparr>],
             parent = 2, traversing = False\<rparr>]"
  by (rule ext) (simp add: store_c_def store_ac_eq op_defs consts_defs)

lemma store_cb_eq:
  "store_cb =
     [1 \<mapsto> \<lparr>mode = 0x41FF, uid = 0, gid = 0, nlink = 5, nopen = 0, isize = 0,
             data = [\<lparr>name = ''.'', node = 1\<rparr>, \<lparr>name = ''..'', node = 1\<rparr>,
                     \<lparr>name = ''a'', node = 2\<rparr>, \<lparr>name = ''c'', node = 3\<rparr>,
                     \<lparr>name = ''b'', node = 4\<rparr>],
             parent = 1, traversing = False\<rparr>,
      2 \<mapsto> \<lparr>mode = 0x41ED, uid = 0, gid = 0, nlink = 3, nopen = 0, isize = 0,
             data = [\<lparr>name = ''.'', node = 2\<rparr>, \<lparr>name = ''..'', node = 1\<rparr>],
             parent = 1, traversing = False\<rparr>,
      3 \<mapsto> \<lparr>mode = 0x41ED, uid = 0, gid = 0, nlink = 2, nopen = 0, isize = 0,
             data = [\<lparr>name = ''.'', node = 3\<rparr>, \<lparr>name = ''..'', node = 2\<rparr>],
             parent = 2, traversing = False\<rparr>,
      4 \<mapsto> \<lparr>mode = 0x41ED, uid = 0, gid = 0, nlink = 2, nopen = 0, isize = 0,
             data = [\<lparr>name = ''.'', node = 4\<rparr>, \<lparr>name = ''..'', node = 1\<rparr>],
             parent = 1, traversing = False\<rparr>]"
  by (rule ext) (simp add: store_cb_def store_c_eq op_defs consts_defs)

lemma store_ab_eq:
  "store_ab =
     [1 \<mapsto> \<lparr>mode = 0x41FF, uid = 0, gid = 0, nlink = 5, nopen = 0, isize = 0,
             data = [\<lparr>name = ''.'', node = 1\<rparr>, \<lparr>name = ''..'', node = 1\<rparr>,
                     \<lparr>name = ''a'', node = 2\<rparr>, \<lparr>name = ''c'', node = 3\<rparr>],
             parent = 1, traversing = False\<rparr>,
      2 \<mapsto> \<lparr>mode = 0x41ED, uid = 0, gid = 0, nlink = 3, nopen = 0, isize = 0,
             data = [\<lparr>name = ''.'', node = 2\<rparr>, \<lparr>name = ''..'', node = 1\<rparr>,
                     \<lparr>name = ''b'', node = 4\<rparr>],
             parent = 1, traversing = False\<rparr>,
      3 \<mapsto> \<lparr>mode = 0x41ED, uid = 0, gid = 0, nlink = 2, nopen = 0, isize = 0,
             data = [\<lparr>name = ''.'', node = 3\<rparr>, \<lparr>name = ''..'', node = 2\<rparr>],
             parent = 2, traversing = False\<rparr>,
      4 \<mapsto> \<lparr>mode = 0x41ED, uid = 0, gid = 0, nlink = 2, nopen = 0, isize = 0,
             data = [\<lparr>name = ''.'', node = 4\<rparr>, \<lparr>name = ''..'', node = 1\<rparr>],
             parent = 1, traversing = False\<rparr>]"
  by (rule ext) (simp add: store_ab_def store_cb_eq op_defs consts_defs)

lemma store_stale_eq:
  "store_stale =
     [1 \<mapsto> \<lparr>mode = 0x41FF, uid = 0, gid = 0, nlink = 5, nopen = 0, isize = 0,
             data = [\<lparr>name = ''.'', node = 1\<rparr>, \<lparr>name = ''..'', node = 1\<rparr>,
                     \<lparr>name = ''a'', node = 2\<rparr>, \<lparr>name = ''c'', node = 3\<rparr>],
             parent = 1, traversing = False\<rparr>,
      2 \<mapsto> \<lparr>mode = 0x41ED, uid = 0, gid = 0, nlink = 2, nopen = 0, isize = 0,
             data = [\<lparr>name = ''.'', node = 2\<rparr>, \<lparr>name = ''..'', node = 1\<rparr>],
             parent = 1, traversing = False\<rparr>,
      3 \<mapsto> \<lparr>mode = 0x41ED, uid = 0, gid = 0, nlink = 2, nopen = 0, isize = 0,
             data = [\<lparr>name = ''.'', node = 3\<rparr>, \<lparr>name = ''..'', node = 2\<rparr>],
             parent = 2, traversing = False\<rparr>]"
  by (rule ext) (simp add: store_stale_def store_ab_eq op_defs consts_defs)

lemma store_stale_built:
  "fst (ramMkdir 2 True 0 0 (newFilesystem 1) 1 ''/a'' 0x1ED) = Inr ()
   \<and> fst (ramMkdir 3 True 0 0 store_a 1 ''/a/c'' 0x1ED) = Inr ()
   \<and> fst (moveNode True store_ac ''/a/c'' ''/c'' 1) = Inr 3
   \<and> fst (ramMkdir 4 True 0 0 store_c 1 ''/b'' 0x1ED) = Inr ()
   \<and> fst (moveNode True store_cb ''/b'' ''/a/b'' 1) = Inr 4
   \<and> fst (releaseNode store_ab ''/a/b'' 1) = Inr ()"
  by (simp add: fresh_eq store_a_eq store_ac_eq store_c_eq store_cb_eq store_ab_eq op_defs consts_defs)


subsection \<open>Lookup\<close>

lemma pathfind_step:
  assumes "pre = [] \<and> c \<noteq> [] \<or> pre = [Split] \<and> c @ rest \<noteq> []"
    and "Split \<notin> set c" and "rest = [] \<or> hd rest = Split"
  shows "pathfind h (pre @ c @ rest) start =
    (case h start of None \<Rightarrow> Inl MemFault
     | Some d \<Rightarrow> if \<not> isDir d then Inl ENOTDIR
        else (case find (\<lambda>e. name e = c) (data d) of
                None \<Rightarrow> Inl ENOENT
              | Some e \<Rightarrow> pathfind h rest (node e)))"
proof (cases "pre = []")
  case True
  with assms show ?thesis by (simp add: pathfind_component)
next
  case False
  with assms have pre: "pre = [Split]" and ne: "c @ rest \<noteq> []" by auto
  have "takeWhile (\<lambda>x. x \<noteq> Split) (c @ rest) = c @ takeWhile (\<lambda>x. x \<noteq> Split) rest"
    using assms by (intro takeWhile_append2) auto
  moreover have "takeWhile (\<lambda>x. x \<noteq> Split) rest = []"
    using assms by (cases rest) auto
  ultimately have tw: "takeWhile (\<lambda>x. x \<noteq> Split) (c @ rest) = c" by simp
  have f: "(\<lambda>p. length (name p) = length c \<and> c = name p) = (\<lambda>e. name e = c)"
    by auto
  have "pathfind h (Split # (c @ rest)) start =
     (case h start of
        None \<Rightarrow> Inl MemFault
      | Some r \<Rightarrow>
          if \<not> isDir r then Inl ENOTDIR
          else (case find (\<lambda>p. length (name p) = length c \<and> c = name p) (data r) of
                  None \<Rightarrow> Inl ENOENT
                | Some p \<Rightarrow> pathfind h rest (node p)))"
    using ne by (subst pathfind.simps) (simp add: tw Let_def del: append_is_Nil_conv cong: option.case_cong if_cong)
  thus ?thesis unfolding pre f by simp
qed

lemma path_shape:
  "path = [] \<or> path = [Split]
   \<or> (\<exists>pre c rest. path = pre @ c @ rest
         \<and> (pre = [] \<and> c \<noteq> [] \<or> pre = [Split] \<and> c @ rest \<noteq> [])
         \<and> Split \<notin> set c \<and> (rest = [] \<or> hd rest = Split))"
proof (cases "path = [] \<or> path = [Split]")
  case True
  then show ?thesis by blast
next
  case False
  define pre where "pre = (if hd path = Split then [Split] else [])"
  define q where "q = (if hd path = Split then tl path else path)"
  define c where "c = takeWhile (\<lambda>x. x \<noteq> Split) q"
  define rest where "rest = dropWhile (\<lambda>x. x \<noteq> Split) q"
  from False have p: "path = pre @ q" and qne: "q \<noteq> []"
    by (cases path; auto simp: pre_def q_def)+
  have q: "q = c @ rest" by (simp add: c_def rest_def)
  have nc: "Split \<notin> set c" unfolding c_def by (auto dest: set_takeWhileD)
  have r: "rest = [] \<or> hd rest = Split"
    unfolding rest_def using hd_dropWhile[of "\<lambda>x. x \<noteq> Split" q] by auto
  have "pre = [] \<and> c \<noteq> [] \<or> pre = [Split] \<and> c @ rest \<noteq> []"
  proof (cases "hd path = Split")
    case True
    with qne q show ?thesis by (simp add: pre_def)
  next
    case False
    with qne have "hd q \<noteq> Split" "q \<noteq> []" by (auto simp: q_def)
    hence "c \<noteq> []" unfolding c_def by (cases q) auto
    with False show ?thesis by (simp add: pre_def)
  qed
  with p q nc r show ?thesis by blast
qed

text \<open>
  C8.  What \<open>pathfind\<close> does with a path, for every store, path and start inode.  Every
  path is empty, or the separator alone, or of the form \<open>pre @ c @ rest\<close>, where \<open>pre\<close>
  is the one leading separator that is ignored (or nothing, before a path that starts
  with a name), \<open>c\<close> is the next component (the bytes up to the next separator; an
  empty component after the ignored separator is a component like any other) and
  \<open>rest\<close> is what follows it.  The empty path and the separator alone give \<open>start\<close> (a
  \<open>NULL\<close> start is handed back as it is, a failure that sets no error code).  On a
  path \<open>pre @ c @ rest\<close> the result is not-a-directory when \<open>start\<close> is not a directory,
  no-such-entry when no entry of \<open>start\<close> has exactly the name \<open>c\<close>, and otherwise the
  result of resolving \<open>rest\<close> from the node of the first such entry (a \<open>start\<close> that is
  not in the store is a memory fault).  So a second separator at the start of the path
  gives no-such-entry in a directory that has no entry with the empty name.  On a fresh
  filesystem \<open>/\<close> resolves to the root and \<open>/x\<close> fails with no-such-entry.
\<close>

theorem pathfind_contract:
  assumes "root \<noteq> 0"
  shows "pathfind h [] start = (if start = 0 then Inl NoErrno else Inr start)
       \<and> pathfind h [Split] start = (if start = 0 then Inl NoErrno else Inr start)
       \<and> (\<forall>pre c rest.
              (pre = [] \<and> c \<noteq> [] \<or> pre = [Split] \<and> c @ rest \<noteq> [])
              \<and> Split \<notin> set c \<and> (rest = [] \<or> hd rest = Split) \<longrightarrow>
            pathfind h (pre @ c @ rest) start =
              (case h start of
                 None \<Rightarrow> Inl MemFault
               | Some d \<Rightarrow>
                   if \<not> isDir d then Inl ENOTDIR
                   else (case find (\<lambda>e. name e = c) (data d) of
                           None \<Rightarrow> Inl ENOENT
                         | Some e \<Rightarrow> pathfind h rest (node e))))
       \<and> (\<forall>path. path = [] \<or> path = [Split]
              \<or> (\<exists>pre c rest. path = pre @ c @ rest
                    \<and> (pre = [] \<and> c \<noteq> [] \<or> pre = [Split] \<and> c @ rest \<noteq> [])
                    \<and> Split \<notin> set c \<and> (rest = [] \<or> hd rest = Split)))
       \<and> (\<forall>rest d. h start = Some d \<and> isDir d \<and> (\<forall>e\<in>set (data d). name e \<noteq> []) \<longrightarrow>
            pathfind h (Split # Split # rest) start = Inl ENOENT)
       \<and> pathfind (newFilesystem root) ''/'' root = Inr root
       \<and> pathfind (newFilesystem root) ''/x'' root = Inl ENOENT"
proof (intro conjI allI impI)
  show "pathfind h [] start = (if start = 0 then Inl NoErrno else Inr start)"
    by (rule pathfind_Nil)
next
  have "pathfind h (Split # []) start = pathfind h [] start" by (rule pathfind_skip) simp
  thus "pathfind h [Split] start = (if start = 0 then Inl NoErrno else Inr start)"
    by (simp add: pathfind_Nil)
next
  fix pre c rest
  assume "(pre = [] \<and> c \<noteq> [] \<or> pre = [Split] \<and> c @ rest \<noteq> [])
              \<and> Split \<notin> set c \<and> (rest = [] \<or> hd rest = Split)"
  thus "pathfind h (pre @ c @ rest) start =
              (case h start of
                 None \<Rightarrow> Inl MemFault
               | Some d \<Rightarrow>
                   if \<not> isDir d then Inl ENOTDIR
                   else (case find (\<lambda>e. name e = c) (data d) of
                           None \<Rightarrow> Inl ENOENT
                         | Some e \<Rightarrow> pathfind h rest (node e)))"
    by (intro pathfind_step) auto
next
  fix path :: string
  show "path = [] \<or> path = [Split]
              \<or> (\<exists>pre c rest. path = pre @ c @ rest
                    \<and> (pre = [] \<and> c \<noteq> [] \<or> pre = [Split] \<and> c @ rest \<noteq> [])
                    \<and> Split \<notin> set c \<and> (rest = [] \<or> hd rest = Split))"
    by (rule path_shape)
next
  fix rest d
  assume a: "h start = Some d \<and> isDir d \<and> (\<forall>e\<in>set (data d). name e \<noteq> [])"
  hence "find (\<lambda>e. name e = []) (data d) = None" by (auto simp: find_None_iff)
  with a pathfind_step[of "[Split]" "[]" "Split # rest" h start]
  show "pathfind h (Split # Split # rest) start = Inl ENOENT" by simp
next
  have "pathfind (newFilesystem root) (Split # []) root = pathfind (newFilesystem root) [] root"
    by (rule pathfind_skip) simp
  thus "pathfind (newFilesystem root) ''/'' root = Inr root"
    using assms by (simp add: pathfind_Nil Split_def)
next
  have "pathfind (newFilesystem root) (Split # ''x'') root = pathfind (newFilesystem root) ''x'' root"
    by (rule pathfind_skip) (simp add: Split_def)
  moreover have "pathfind (newFilesystem root) (''x'' @ []) root = Inl ENOENT"
    by (subst pathfind_component)
       (simp_all add: Split_def newFilesystem_def zero_inode_def isDir_def consts_defs)
  ultimately show "pathfind (newFilesystem root) ''/x'' root = Inl ENOENT"
    by (simp add: Split_def)
qed

theorem pathfind_contract_witness:
  "(1::nat) \<noteq> 0
   \<and> pathfind store_ac ''/a/c'' 1 = Inr 3
   \<and> pathfind store_ac ''/a//c'' 1 = Inl ENOENT
   \<and> pathfind store_ac ''//'' 1 = Inl ENOENT
   \<and> pathfind (newFilesystem 1) ''/'' 1 = Inr 1
   \<and> pathfind (newFilesystem 1) ''/x'' 1 = Inl ENOENT"
proof -
  have one: "(1::nat) \<noteq> 0" by simp
  note w1 = pathfind_contract[OF one, where h = store_ac and start = 1]
  note w2 = pathfind_contract[OF one, where h = store_ac and start = 2]
  note w3 = pathfind_contract[OF one, where h = store_ac and start = 3]
  note step1 = w1[THEN conjunct2, THEN conjunct2, THEN conjunct1, rule_format]
  note step2 = w2[THEN conjunct2, THEN conjunct2, THEN conjunct1, rule_format]
  note empty1 = w1[THEN conjunct2, THEN conjunct2, THEN conjunct2, THEN conjunct2,
                   THEN conjunct1, rule_format]
  note empty2 = w2[THEN conjunct2, THEN conjunct2, THEN conjunct2, THEN conjunct2,
                   THEN conjunct1, rule_format]
  have l1: "store_ac 1 = Some (the (store_ac 1))" and d1: "isDir (the (store_ac 1))"
    and n1: "\<forall>e\<in>set (data (the (store_ac 1))). name e \<noteq> []"
    and l2: "store_ac 2 = Some (the (store_ac 2))" and d2: "isDir (the (store_ac 2))"
    and n2: "\<forall>e\<in>set (data (the (store_ac 2))). name e \<noteq> []"
    by (simp_all add: store_ac_eq isDir_def consts_defs)
  have a: "pathfind store_ac ([Split] @ ''a'' @ ''/c'') 1 = pathfind store_ac ''/c'' 2"
    by (subst step1) (simp_all add: Split_def store_ac_eq isDir_def consts_defs)
  have b: "pathfind store_ac ([Split] @ ''c'' @ []) 2 = pathfind store_ac [] 3"
    by (subst step2) (simp_all add: Split_def store_ac_eq isDir_def consts_defs)
  have c: "pathfind store_ac [] 3 = Inr 3" using w3 by simp
  have d: "pathfind store_ac ([Split] @ ''a'' @ ''//c'') 1 = pathfind store_ac ''//c'' 2"
    by (subst step1) (simp_all add: Split_def store_ac_eq isDir_def consts_defs)
  have e: "pathfind store_ac (Split # Split # ''c'') 2 = Inl ENOENT"
    using l2 d2 n2 by (intro empty2) blast
  have f: "pathfind store_ac (Split # Split # []) 1 = Inl ENOENT"
    using l1 d1 n1 by (intro empty1) blast
  from a b c have "pathfind store_ac ''/a/c'' 1 = Inr 3" by (simp add: Split_def)
  moreover from d e have "pathfind store_ac ''/a//c'' 1 = Inl ENOENT" by (simp add: Split_def)
  moreover from f have "pathfind store_ac ''//'' 1 = Inl ENOENT" by (simp add: Split_def)
  moreover from w1
  have "pathfind (newFilesystem 1) ''/'' 1 = Inr 1"
    "pathfind (newFilesystem 1) ''/x'' 1 = Inl ENOENT" by blast+
  ultimately show ?thesis by simp
qed

text \<open>
  C10.  When \<open>pathfind\<close> resolves a path that does not end in a separator to an inode
  \<open>f\<close>, it resolves the path followed by one separator to the same \<open>f\<close>, whatever kind
  of inode \<open>f\<close> is: after the last component the remaining path is the single
  separator, which is skipped, and the directory test is not reached.  For a regular
  file reached by an absolute path this is the claim.
\<close>

theorem pathfind_trailing_separator:
  "pathfind h p root = Inr f \<Longrightarrow> p \<noteq> [] \<Longrightarrow> last p \<noteq> Split
     \<Longrightarrow> pathfind h (p @ [Split]) root = Inr f"
proof (induction h p root rule: pathfind.induct)
  case (1 h path root)
  define path1 where "path1 = (if path \<noteq> [] \<and> hd path = Split then tl path else path)"
  define n where "n = length (takeWhile (\<lambda>c. c \<noteq> Split) path1)"
  have p1ne: "path1 \<noteq> []"
    using "1.prems"(2,3) by (cases path) (auto simp: path1_def split: if_splits)
  have last1: "last path1 = last path"
    using "1.prems"(2,3) by (cases path) (auto simp: path1_def split: if_splits)
  have skip_app: "(if path @ [Split] \<noteq> [] \<and> hd (path @ [Split]) = Split
                   then tl (path @ [Split]) else path @ [Split]) = path1 @ [Split]"
    using "1.prems"(2) by (cases path) (auto simp: path1_def)
  have n_app: "length (takeWhile (\<lambda>c. c \<noteq> Split) (path1 @ [Split])) = n"
    by (simp add: n_def takeWhile_tail)
  have n_le: "n \<le> length path1"
    unfolding n_def by (rule length_takeWhile_le)
  from "1.prems"(1) p1ne obtain r e where hr: "h root = Some r" and dir: "isDir r"
    and fe: "find (\<lambda>p. length (name p) = n \<and> take n path1 = name p) (data r) = Some e"
    and rec: "pathfind h (drop n path1) (node e) = Inr f"
    by (subst (asm) pathfind.simps)
       (auto simp: path1_def[symmetric] n_def[symmetric] Let_def split: option.splits if_splits)
  have rec_app: "pathfind h (drop n path1 @ [Split]) (node e) = Inr f"
  proof (cases "drop n path1 = []")
    case True
    with rec have "node e = f \<and> f \<noteq> 0"
      by (simp add: pathfind_Nil split: if_splits)
    with True show ?thesis
      using pathfind_skip[of "[]" h "node e"] by (simp add: pathfind_Nil)
  next
    case False
    moreover from False n_le have "last (drop n path1) = last path1" by simp
    ultimately show ?thesis
      using "1.IH"[OF path1_def p1ne hr _ n_def fe] dir rec last1 "1.prems"(3) by simp
  qed
  show ?case
    using p1ne hr dir fe rec_app n_le
    by (subst pathfind.simps, subst skip_app) (simp add: n_app Let_def)
qed

theorem pathfind_trailing_separator_witness:
  "pathfind store_file ''/f'' 1 = Inr 2 \<and> ''/f'' \<noteq> [] \<and> last ''/f'' \<noteq> Split
   \<and> \<not> isDir (the (store_file 2))
   \<and> pathfind store_file ''/f/'' 1 = Inr 2"
proof -
  have a: "pathfind store_file ''/f'' 1 = Inr 2"
    by (simp add: store_file_eq pathfind.simps isDir_def consts_defs Let_def)
  have b: "''/f'' \<noteq> []" by simp
  have c: "last ''/f'' \<noteq> Split" by (simp add: Split_def)
  have d: "\<not> isDir (the (store_file 2))"
    by (simp add: store_file_eq isDir_def consts_defs)
  from pathfind_trailing_separator[OF a b c] a b c d show ?thesis
    by (simp add: Split_def)
qed

text \<open>
  C5.  The path \<open>/\<close> is non-empty, begins with the separator and has nothing after its
  last separator; on the fresh filesystem \<open>getParentDirectory\<close> does not fail on it: it
  returns the root as parent and the empty string as file name.
\<close>

theorem getParentDirectory_empty_basename:
  "getParentDirectory (newFilesystem 1) ''/'' 1 = Inr (1, [])"
  by (simp add: fresh_eq op_defs consts_defs)

text \<open>
  C1.  On the fresh filesystem the parent of \<open>/x\<close> resolves (it is the root) and the
  root has no entry \<open>x\<close>; \<open>releaseNode\<close> stops at the read through the \<open>NULL\<close> node
  instead of returning an error.
\<close>

theorem releaseNode_absent_name:
  "getParentDirectory (newFilesystem 1) ''/x'' 1 = Inr (1, ''x'')
   \<and> pathfind (newFilesystem 1) ''x'' 1 = Inl ENOENT
   \<and> fst (releaseNode (newFilesystem 1) ''/x'' 1) = Inl MemFault"
  by (simp add: fresh_eq op_defs consts_defs)

text \<open>
  C2.  In the store with the single file \<open>/f\<close>, \<open>moveNode\<close> from \<open>/f\<close> to \<open>/g\<close> with a
  failing entry allocation returns out-of-space, and the store it leaves has lost
  the entry \<open>f\<close> of the root: the file is no longer reachable.
\<close>

theorem moveNode_alloc_failure:
  "fst (moveNode False store_file ''/f'' ''/g'' 1) = Inl ENOSPC
   \<and> map name (data (the (store_file 1))) = [''.'', ''..'', ''f'']
   \<and> map name (data (the (snd (moveNode False store_file ''/f'' ''/g'' 1) 1))) = [''.'', ''..'']
   \<and> pathfind (snd (moveNode False store_file ''/f'' ''/g'' 1)) ''/f'' 1 = Inl ENOENT"
  by (simp add: store_file_eq op_defs consts_defs)

subsection \<open>Adding a node\<close>

text \<open>
  Let \<open>path\<close> split into the parent directory \<open>dirNode\<close> and the file name
  \<open>file\<close>.  If \<open>pathfind\<close> finds \<open>file\<close> in \<open>dirNode\<close>, \<open>addNode\<close> fails with
  already-exists and leaves the store as it was.  If it does not, and the entry
  allocation succeeds, the name is shorter than \<open>NAME_MAX\<close>, the parent has its
  entry chain and \<open>nd\<close> is an inode of the store whose link count is below
  \<open>INT_MAX\<close>, then \<open>addNode\<close> returns \<open>nd\<close> and the store differs from the old one in
  exactly this: the parent's chain has one more cell at its end,
  named \<open>file\<close> and pointing at \<open>nd\<close>; the link count of \<open>nd\<close> is one higher; the parent
  reference of \<open>nd\<close> is \<open>dirNode\<close> if it was \<open>NULL\<close> and is unchanged otherwise.  (The
  two inodes may be the same one.)
\<close>

lemma addNode_fitting:
  assumes "getParentDirectory h path root = Inr (dirNode, file)"
  shows "(\<forall>found. pathfind h file dirNode = Inr found \<longrightarrow>
            addNode alloc h path root nd = (Inl EEXIST, h))
       \<and> (\<forall>e d n. pathfind h file dirNode = Inl e \<and> alloc \<and> length file < NAME_MAX
              \<and> h dirNode = Some d \<and> data d \<noteq> [] \<and> h nd = Some n \<and> nlink n < INT_MAX \<longrightarrow>
            addNode alloc h path root nd =
              (Inr nd,
               if nd = dirNode
               then h(dirNode \<mapsto> d\<lparr>data := data d @ [\<lparr>name = file, node = nd\<rparr>],
                                   nlink := nlink d + 1,
                                   parent := (if parent d = 0 then dirNode else parent d)\<rparr>)
               else h(dirNode \<mapsto> d\<lparr>data := data d @ [\<lparr>name = file, node = nd\<rparr>]\<rparr>,
                      nd \<mapsto> n\<lparr>nlink := nlink n + 1,
                               parent := (if parent n = 0 then dirNode else parent n)\<rparr>)))"
proof (intro conjI allI impI)
  fix found
  assume "pathfind h file dirNode = Inr found"
  with assms show "addNode alloc h path root nd = (Inl EEXIST, h)"
    by (simp add: addNode_def)
next
  fix e d n
  assume a: "pathfind h file dirNode = Inl e \<and> alloc \<and> length file < NAME_MAX
              \<and> h dirNode = Some d \<and> data d \<noteq> [] \<and> h nd = Some n \<and> nlink n < INT_MAX"
  from getParentDirectory_Inr[OF assms] a have dir: "isDir d" and ns: "Split \<notin> set file"
    by auto
  from a dir ns have nc: "\<not> crashed e"
    by (auto simp: pathfind_single crashed_def split: if_splits option.splits)
  show "addNode alloc h path root nd =
              (Inr nd,
               if nd = dirNode
               then h(dirNode \<mapsto> d\<lparr>data := data d @ [\<lparr>name = file, node = nd\<rparr>],
                                   nlink := nlink d + 1,
                                   parent := (if parent d = 0 then dirNode else parent d)\<rparr>)
               else h(dirNode \<mapsto> d\<lparr>data := data d @ [\<lparr>name = file, node = nd\<rparr>]\<rparr>,
                      nd \<mapsto> n\<lparr>nlink := nlink n + 1,
                               parent := (if parent n = 0 then dirNode else parent n)\<rparr>))"
    using assms a nc
    by (auto simp: addNode_def addEntry_eq setNewEntry_def setLastNode_snoc Let_def fun_upd_twist)
qed

lemma scanBack_name:
  "Split \<notin> set nm \<Longrightarrow> k \<le> length nm \<Longrightarrow> scanBack (Split # nm) (Suc k) = Inr 0"
proof (induction k)
  case 0
  show ?case by simp
next
  case (Suc k)
  from Suc.prems have "k < length nm" by simp
  hence "nm ! k \<in> set nm" by (rule nth_mem)
  with Suc.prems(1) have "nm ! k \<noteq> Split" by metis
  with Suc show ?case by simp
qed

lemma getParentDirectory_top:
  assumes "h root = Some r" "isDir r" "root \<noteq> 0" "Split \<notin> set nm"
    and "Suc (length nm) < PATH_MAX"
  shows "getParentDirectory h (Split # nm) root = Inr (root, nm)"
  using assms scanBack_name[of nm "length nm"]
  by (simp add: getParentDirectory_def checkPath_def extractPrefix_def pathfind_Nil)

lemma addNode_long_name:
  assumes "h root = Some r" "isDir r" "root \<noteq> 0" "data r \<noteq> []"
    and "Split \<notin> set nm" "nm \<noteq> []" "find (\<lambda>e. name e = nm) (data r) = None"
    and "NAME_MAX \<le> length nm" "Suc (length nm) < PATH_MAX"
  shows "pathfind h nm root = Inl ENOENT
         \<and> addNode True h (Split # nm) root nd = (Inl BufOverflow, h)"
proof -
  have pf: "pathfind h nm root = Inl ENOENT"
    using assms by (simp add: pathfind_single)
  moreover have "addNode True h (Split # nm) root nd = (Inl BufOverflow, h)"
    using assms pf getParentDirectory_top[of h root r nm]
    by (simp add: addNode_def crashed_def addEntry_eq)
  ultimately show ?thesis by blast
qed

lemma addNode_fitting_name:
  assumes "h root = Some r" "isDir r" "root \<noteq> 0" "data r \<noteq> []"
    and "Split \<notin> set nm" "nm \<noteq> []" "find (\<lambda>e. name e = nm) (data r) = None"
    and "length nm < NAME_MAX" "Suc (length nm) < PATH_MAX"
    and "h nd = Some n" "nlink n < INT_MAX" "nd \<noteq> root"
  shows "fst (addNode True h (Split # nm) root nd) = Inr nd"
proof -
  have pf: "pathfind h nm root = Inl ENOENT"
    using assms by (simp add: pathfind_single)
  show ?thesis
    using assms pf getParentDirectory_top[of h root r nm]
    by (simp add: addNode_def crashed_def addEntry_eq Let_def)
qed

text \<open>
  C7.  A file name of 255 bytes (\<open>NAME_MAX\<close>, the longest file name the platform
  allows) under the root of the store with the single file \<open>/f\<close>: the path splits into
  the root and that name, no entry of the root has the name, and the entry allocation
  succeeds; \<open>addNode\<close> does not add the entry: \<open>strcpy\<close> writes the 255 bytes and the
  terminating \<open>NUL\<close> into the entry's \<open>char name[NAME_MAX]\<close>, one byte more than the
  array holds.  With a name of 254 bytes the same call succeeds.
\<close>

theorem addNode_name_of_NAME_MAX_bytes:
  "length (replicate 255 CHR ''g'') = NAME_MAX
   \<and> getParentDirectory store_file (Split # replicate 255 CHR ''g'') 1
       = Inr (1, replicate 255 CHR ''g'')
   \<and> pathfind store_file (replicate 255 CHR ''g'') 1 = Inl ENOENT
   \<and> addNode True store_file (Split # replicate 255 CHR ''g'') 1 2
       = (Inl BufOverflow, store_file)
   \<and> fst (addNode True store_file (Split # replicate 254 CHR ''g'') 1 2) = Inr 2"
proof -
  define r where "r = the (store_file 1)"
  define n where "n = the (store_file 2)"
  have live: "store_file 1 = Some r" "isDir r" "data r \<noteq> []" "store_file 2 = Some n"
    "nlink n < INT_MAX"
    by (simp_all add: r_def n_def store_file_eq isDir_def consts_defs)
  have short: "\<forall>e\<in>set (data r). length (name e) < 254"
    by (simp add: r_def store_file_eq)
  have absent: "find (\<lambda>e. name e = replicate k CHR ''g'') (data r) = None" if "254 \<le> k" for k
    unfolding find_None_iff using short that by fastforce
  have ns: "Split \<notin> set (replicate k CHR ''g'')" for k by (simp add: Split_def)
  have len: "length (replicate 255 CHR ''g'') = NAME_MAX" by (simp add: NAME_MAX_def)
  have g: "getParentDirectory store_file (Split # replicate 255 CHR ''g'') 1
       = Inr (1, replicate 255 CHR ''g'')"
  proof (rule getParentDirectory_top[where r = r])
    show "store_file 1 = Some r" by (rule live)
    show "isDir r" by (rule live)
    show "Split \<notin> set (replicate 255 CHR ''g'')" by (rule ns)
  qed (simp_all add: PATH_MAX_def)
  have "pathfind store_file (replicate 255 CHR ''g'') 1 = Inl ENOENT
         \<and> addNode True store_file (Split # replicate 255 CHR ''g'') 1 2
             = (Inl BufOverflow, store_file)"
  proof (rule addNode_long_name[where r = r])
    show "store_file 1 = Some r" by (rule live)
    show "isDir r" by (rule live)
    show "data r \<noteq> []" by (rule live)
    show "Split \<notin> set (replicate 255 CHR ''g'')" by (rule ns)
    show "find (\<lambda>e. name e = replicate 255 CHR ''g'') (data r) = None"
      by (rule absent) simp
  qed (simp_all add: consts_defs)
  moreover have "fst (addNode True store_file (Split # replicate 254 CHR ''g'') 1 2) = Inr 2"
  proof (rule addNode_fitting_name[where r = r and n = n])
    show "store_file 1 = Some r" by (rule live)
    show "isDir r" by (rule live)
    show "data r \<noteq> []" by (rule live)
    show "Split \<notin> set (replicate 254 CHR ''g'')" by (rule ns)
    show "find (\<lambda>e. name e = replicate 254 CHR ''g'') (data r) = None"
      by (rule absent) simp
    show "store_file 2 = Some n" by (rule live)
    show "nlink n < INT_MAX" by (rule live)
  qed (simp_all add: consts_defs)
  ultimately show ?thesis using len g by blast
qed

subsection \<open>Detaching an entry\<close>

text \<open>
  C6, as the code has it.  \<open>removeEntry\<close> never compares the name with the first cell
  of the chain.  On a chain with first cell \<open>p\<close> and further cells \<open>es\<close>: if \<open>e\<close> is the
  first cell of \<open>es\<close> whose name is \<open>nm\<close>, the result is the node of \<open>e\<close> and the chain
  without \<open>e\<close>, the other cells (\<open>p\<close> included) in their order; if no cell of \<open>es\<close> has
  the name \<open>nm\<close>, the call fails with no-such-entry.
\<close>

theorem removeEntry_after_head:
  "(\<forall>pre e post. es = pre @ e # post \<and> name e = nm \<and> (\<forall>x\<in>set pre. name x \<noteq> nm) \<longrightarrow>
      removeEntry (p # es) nm = Inr (node e, p # pre @ post))
   \<and> ((\<forall>x\<in>set es. name x \<noteq> nm) \<longrightarrow> removeEntry (p # es) nm = Inl ENOENT)"
  by (auto simp: removeEntry_found removeEntry_absent)

theorem removeEntry_after_head_witness:
  "removeEntry [\<lparr>name = ''.'', node = 1\<rparr>, \<lparr>name = ''..'', node = 1\<rparr>,
                \<lparr>name = ''f'', node = 2\<rparr>, \<lparr>name = ''g'', node = 3\<rparr>] ''f''
     = Inr (2, [\<lparr>name = ''.'', node = 1\<rparr>, \<lparr>name = ''..'', node = 1\<rparr>, \<lparr>name = ''g'', node = 3\<rparr>])
   \<and> removeEntry [\<lparr>name = ''.'', node = 1\<rparr>, \<lparr>name = ''..'', node = 1\<rparr>] ''f'' = Inl ENOENT"
proof -
  from removeEntry_after_head[of "[\<lparr>name = ''..'', node = 1\<rparr>, \<lparr>name = ''f'', node = 2\<rparr>, \<lparr>name = ''g'', node = 3\<rparr>]"
      "''f''" "\<lparr>name = ''.'', node = 1\<rparr>"]
  have "\<forall>pre e post. [\<lparr>name = ''..'', node = 1\<rparr>, \<lparr>name = ''f'', node = 2\<rparr>, \<lparr>name = ''g'', node = 3\<rparr>] = pre @ e # post
          \<and> name e = ''f'' \<and> (\<forall>x\<in>set pre. name x \<noteq> ''f'') \<longrightarrow>
        removeEntry (\<lparr>name = ''.'', node = 1\<rparr> # [\<lparr>name = ''..'', node = 1\<rparr>, \<lparr>name = ''f'', node = 2\<rparr>, \<lparr>name = ''g'', node = 3\<rparr>]) ''f''
          = Inr (node e, \<lparr>name = ''.'', node = 1\<rparr> # pre @ post)"
    by blast
  from this[rule_format, of "[\<lparr>name = ''..'', node = 1\<rparr>]" "\<lparr>name = ''f'', node = 2\<rparr>" "[\<lparr>name = ''g'', node = 3\<rparr>]"]
  have a: "removeEntry [\<lparr>name = ''.'', node = 1\<rparr>, \<lparr>name = ''..'', node = 1\<rparr>,
                \<lparr>name = ''f'', node = 2\<rparr>, \<lparr>name = ''g'', node = 3\<rparr>] ''f''
     = Inr (2, [\<lparr>name = ''.'', node = 1\<rparr>, \<lparr>name = ''..'', node = 1\<rparr>, \<lparr>name = ''g'', node = 3\<rparr>])"
    by simp
  from removeEntry_after_head[of "[\<lparr>name = ''..'', node = 1\<rparr>]" "''f''" "\<lparr>name = ''.'', node = 1\<rparr>"]
  have b: "removeEntry [\<lparr>name = ''.'', node = 1\<rparr>, \<lparr>name = ''..'', node = 1\<rparr>] ''f'' = Inl ENOENT"
    by simp
  from a b show ?thesis by simp
qed

text \<open>
  The claim as stated fails when the matching cell is the first one: the chain of the
  fresh root starts with the cell named \<open>.\<close>, and detaching \<open>.\<close> reports
  no-such-entry.
\<close>

theorem removeEntry_head_counterexample:
  "name (hd [\<lparr>name = ''.'', node = 1\<rparr>, \<lparr>name = ''..'', node = 1\<rparr>]) = ''.''
   \<and> removeEntry [\<lparr>name = ''.'', node = 1\<rparr>, \<lparr>name = ''..'', node = 1\<rparr>] ''.'' = Inl ENOENT"
  by simp

subsection \<open>Teardown\<close>

text \<open>Unfolding rules for a run with a numeral as fuel.\<close>

lemma releaseAll_numeral:
  "releaseAll (numeral n) (h, visited) root =
     (case h root of
        None \<Rightarrow> Some (Inl MemFault)
      | Some r \<Rightarrow>
          if nlink r = INT_MIN then Some (Inl IntOverflow)
          else if traversing r then Some (Inr (h(root \<mapsto> r\<lparr>nlink := nlink r - 1\<rparr>), visited))
          else
            (let h2 = h(root \<mapsto> r\<lparr>nlink := nlink r - 1, traversing := True\<rparr>);
                 s2 = (h2, visited @ [root])
             in case (if isDir r then releaseLoop (pred_numeral n) s2 root else Some (Inr s2)) of
                  None \<Rightarrow> None
                | Some (Inl e) \<Rightarrow> Some (Inl e)
                | Some (Inr (h3, visited3)) \<Rightarrow>
                    (case h3 root of
                       None \<Rightarrow> Some (Inl MemFault)
                     | Some r3 \<Rightarrow>
                         if nlink r3 = 0 then Some (Inr (h3(root := None), visited3))
                         else Some (Inr (h3(root \<mapsto> r3\<lparr>traversing := False\<rparr>), visited3)))))"
  by (subst numeral_eq_Suc) (rule releaseAll.simps)

lemma releaseLoop_numeral:
  "releaseLoop (numeral n) (h, visited) root =
     (case h root of
        None \<Rightarrow> Some (Inl MemFault)
      | Some r \<Rightarrow>
          (case data r of
             [] \<Rightarrow> Some (Inl MemFault)
           | [p] \<Rightarrow> releaseAll (pred_numeral n) (h, visited) (node p)
           | p # q # rest \<Rightarrow>
               (case releaseAll (pred_numeral n) (h, visited) (node q) of
                  None \<Rightarrow> None
                | Some (Inl e) \<Rightarrow> Some (Inl e)
                | Some (Inr (h1, visited1)) \<Rightarrow>
                    (case h1 root of
                       None \<Rightarrow> Some (Inl MemFault)
                     | Some r1 \<Rightarrow>
                         (case data r1 of
                            p1 # q1 # rest1 \<Rightarrow>
                              releaseLoop (pred_numeral n) (h1(root \<mapsto> r1\<lparr>data := p1 # rest1\<rparr>), visited1) root
                          | _ \<Rightarrow> Some (Inl MemFault))))))"
  by (subst numeral_eq_Suc) (rule releaseLoop.simps)

text \<open>More fuel does not change the outcome of a run that has one.\<close>

lemma fuel_Suc_aux:
  "(\<forall>s root x. releaseAll k s root = Some x \<longrightarrow> releaseAll (Suc k) s root = Some x)
   \<and> (\<forall>s root x. releaseLoop k s root = Some x \<longrightarrow> releaseLoop (Suc k) s root = Some x)"
proof (induction k)
  case 0
  show ?case by simp
next
  case (Suc k)
  note IHa = Suc.IH[THEN conjunct1, rule_format]
  note IHl = Suc.IH[THEN conjunct2, rule_format]
  show ?case
  proof (intro conjI allI impI)
    fix s :: "heap \<times> addr list" and root x
    obtain h vis where s: "s = (h, vis)" by (cases s)
    note A1 = releaseAll.simps(2)[of k h vis root]
    note A2 = releaseAll.simps(2)[of "Suc k" h vis root]
    assume "releaseAll (Suc k) s root = Some x"
    hence run: "releaseAll (Suc k) (h, vis) root = Some x" by (simp only: s)
    have "releaseAll (Suc (Suc k)) (h, vis) root = Some x"
    proof (cases "h root")
      case None
      with run show ?thesis by simp
    next
      case (Some r)
      show ?thesis
      proof (cases "nlink r = INT_MIN \<or> traversing r \<or> \<not> isDir r")
        case True
        with run Some show ?thesis by (auto simp: Let_def)
      next
        case False
        define s2 where "s2 = (h(root \<mapsto> r\<lparr>nlink := nlink r - 1, traversing := True\<rparr>), vis @ [root])"
        from run Some False obtain y where y: "releaseLoop k s2 root = Some y"
          unfolding A1 by (cases "releaseLoop k s2 root") (auto simp: Let_def s2_def)
        from run[unfolded A1] y IHl[OF y] Some False show ?thesis
          unfolding A2 by (simp add: Let_def s2_def del: releaseAll.simps releaseLoop.simps)
      qed
    qed
    thus "releaseAll (Suc (Suc k)) s root = Some x" by (simp only: s)
  next
    fix s :: "heap \<times> addr list" and root x
    obtain h vis where s: "s = (h, vis)" by (cases s)
    note L1 = releaseLoop.simps(2)[of k h vis root]
    note L2 = releaseLoop.simps(2)[of "Suc k" h vis root]
    assume "releaseLoop (Suc k) s root = Some x"
    hence run: "releaseLoop (Suc k) (h, vis) root = Some x" by (simp only: s)
    have "releaseLoop (Suc (Suc k)) (h, vis) root = Some x"
    proof (cases "h root")
      case None
      with run show ?thesis by simp
    next
      case (Some r)
      show ?thesis
      proof (cases "data r")
        case Nil
        with run Some show ?thesis by simp
      next
        case (Cons p ps)
        note dr = Cons
        show ?thesis
        proof (cases ps)
          case Nil
          with run Some dr have "releaseAll k (h, vis) (node p) = Some x"
            unfolding L1 by simp
          from IHa[OF this] Some dr Nil show ?thesis
            unfolding L2 by (simp del: releaseAll.simps releaseLoop.simps)
        next
          case (Cons q rest)
          with run Some dr obtain y where
            y: "releaseAll k (h, vis) (node q) = Some y"
            unfolding L1 by (cases "releaseAll k (h, vis) (node q)") auto
          note y' = IHa[OF y]
          show ?thesis
          proof (cases y)
            case (Inl e)
            from run[unfolded L1] Some dr Cons y Inl have "x = Inl e"
              by (simp del: releaseAll.simps releaseLoop.simps)
            with y' Inl Some dr Cons show ?thesis
              unfolding L2 by (simp del: releaseAll.simps releaseLoop.simps)
          next
            case (Inr s1)
            obtain h1 vis1 where s1: "s1 = (h1, vis1)" by (cases s1)
            show ?thesis
            proof (cases "h1 root")
              case None
              with run[unfolded L1] \<open>h root = Some r\<close> dr Cons y y' Inr s1 show ?thesis
                unfolding L2 by (simp del: releaseAll.simps releaseLoop.simps)
            next
              case (Some r1)
              note h1r = Some
              show ?thesis
              proof (cases "\<exists>p1 q1 rest1. data r1 = p1 # q1 # rest1")
                case False
                with run[unfolded L1] \<open>h root = Some r\<close> dr Cons y y' Inr s1 h1r show ?thesis
                  unfolding L2
                  by (auto simp del: releaseAll.simps releaseLoop.simps split: list.splits)
              next
                case True
                then obtain p1 q1 rest1 where d1: "data r1 = p1 # q1 # rest1" by blast
                with run[unfolded L1] \<open>h root = Some r\<close> dr Cons y Inr s1 h1r
                have "releaseLoop k (h1(root \<mapsto> r1\<lparr>data := p1 # rest1\<rparr>), vis1) root = Some x"
                  by (simp del: releaseAll.simps releaseLoop.simps)
                from IHl[OF this] \<open>h root = Some r\<close> dr Cons y' Inr s1 h1r d1
                show ?thesis
                  unfolding L2 by (simp del: releaseAll.simps releaseLoop.simps)
              qed
            qed
          qed
        qed
      qed
    qed
    thus "releaseLoop (Suc (Suc k)) s root = Some x" by (simp only: s)
  qed
qed

lemma releaseAll_fuel_mono:
  "releaseAll k s root = Some x \<Longrightarrow> k \<le> k' \<Longrightarrow> releaseAll k' s root = Some x"
proof (induction k' )
  case 0
  then show ?case by simp
next
  case (Suc k')
  show ?case
  proof (cases "k = Suc k'")
    case True
    with Suc.prems show ?thesis by simp
  next
    case False
    with Suc.prems have "k \<le> k'" by simp
    from Suc.IH[OF Suc.prems(1) this] fuel_Suc_aux[of k'] show ?thesis by blast
  qed
qed


















text \<open>
  C3.  The six calls that build \<open>store_stale\<close> all succeed.  Teardown of that store
  from the root does not return: with enough fuel the run stops at a memory fault,
  and with any fuel it either needs more or stops at that fault.  (The root frees
  directory \<open>2\<close>, whose link count the release of \<open>/a/b\<close> lowered; the \<open>..\<close> cell of
  directory \<open>3\<close>, left behind by the move, still points at it.)
\<close>

theorem teardown_after_directory_move:
  "fst (ramMkdir 2 True 0 0 (newFilesystem 1) 1 ''/a'' 0x1ED) = Inr ()
   \<and> fst (ramMkdir 3 True 0 0 store_a 1 ''/a/c'' 0x1ED) = Inr ()
   \<and> fst (moveNode True store_ac ''/a/c'' ''/c'' 1) = Inr 3
   \<and> fst (ramMkdir 4 True 0 0 store_c 1 ''/b'' 0x1ED) = Inr ()
   \<and> fst (moveNode True store_cb ''/b'' ''/a/b'' 1) = Inr 4
   \<and> fst (releaseNode store_ab ''/a/b'' 1) = Inr ()
   \<and> releaseAll 10 (store_stale, []) 1 = Some (Inl MemFault)
   \<and> (\<forall>k. releaseAll k (store_stale, []) 1 = None
          \<or> releaseAll k (store_stale, []) 1 = Some (Inl MemFault))"
proof -
  have run: "releaseAll 10 (store_stale, []) 1 = Some (Inl MemFault)"
    by (simp add: store_stale_eq isDir_def consts_defs releaseAll_numeral releaseLoop_numeral Let_def)
  have "releaseAll k (store_stale, []) 1 = None
          \<or> releaseAll k (store_stale, []) 1 = Some (Inl MemFault)" for k
  proof (cases "releaseAll k (store_stale, []) 1")
    case None
    then show ?thesis by simp
  next
    case (Some x)
    from releaseAll_fuel_mono[OF Some, of "max k 10"]
      releaseAll_fuel_mono[OF run, of "max k 10"]
    have "x = Inl MemFault" by simp
    with Some show ?thesis by simp
  qed
  with run store_stale_built show ?thesis by blast
qed




subsection \<open>Directory link counts\<close>

paragraph \<open>Counting name cells\<close>

lemma cells_to_dead: "h d = None \<Longrightarrow> cells_to h x d = 0"
  by (simp add: cells_to_def)

lemma nedges_superset:
  assumes "finite A" "dom h \<subseteq> A"
  shows "nedges h x = sum (cells_to h x) A"
proof -
  have "sum (cells_to h x) A = sum (cells_to h x) (dom h)"
    using assms by (intro sum.mono_neutral_right) (auto simp: cells_to_def domIff)
  thus ?thesis by (simp add: nedges_def)
qed

lemma nedges_upd:
  assumes "finite (dom h)"
  shows "nedges (h(d := v)) x + cells_to h x d = nedges h x + cells_to (h(d := v)) x d"
proof -
  let ?A = "insert d (dom h)"
  let ?h' = "h(d := v)"
  have fin: "finite ?A" using assms by simp
  have "dom ?h' \<subseteq> ?A" by (auto split: if_splits)
  hence a: "nedges ?h' x = sum (cells_to ?h' x) ?A" using fin by (rule nedges_superset[rotated])
  have b: "nedges h x = sum (cells_to h x) ?A" using fin by (rule nedges_superset) auto
  have same: "sum (cells_to ?h' x) (?A - {d}) = sum (cells_to h x) (?A - {d})"
    by (rule sum.cong) (auto simp: cells_to_def)
  have "sum (cells_to ?h' x) ?A = cells_to ?h' x d + sum (cells_to ?h' x) (?A - {d})"
    using fin by (intro sum.remove) auto
  moreover have "sum (cells_to h x) ?A = cells_to h x d + sum (cells_to h x) (?A - {d})"
    using fin by (intro sum.remove) auto
  ultimately show ?thesis using a b same by simp
qed

lemma nedges_zero_iff:
  assumes "finite (dom h)"
  shows "nedges h x = 0 \<longleftrightarrow> (\<forall>d n. h d = Some n \<longrightarrow> x \<notin> node ` set (name_cells n))"
proof -
  have "nedges h x = 0 \<longleftrightarrow> (\<forall>d\<in>dom h. cells_to h x d = 0)"
    using assms by (simp add: nedges_def)
  also have "\<dots> \<longleftrightarrow> (\<forall>d n. h d = Some n \<longrightarrow> x \<notin> node ` set (name_cells n))"
    by (auto simp: cells_to_def count_list_0_iff dom_def)
  finally show ?thesis .
qed

lemma nedges_ge_cells:
  assumes "finite (dom h)"
  shows "cells_to h x d \<le> nedges h x"
proof (cases "d \<in> dom h")
  case True
  with assms show ?thesis
    unfolding nedges_def by (intro member_le_sum) auto
next
  case False
  thus ?thesis by (simp add: cells_to_def domIff)
qed

lemma setNewEntry_snoc:
  "h d = Some dn \<Longrightarrow> data dn = list @ [e]
     \<Longrightarrow> setNewEntry h d nd = h(d \<mapsto> dn\<lparr>data := list @ [e\<lparr>node := nd\<rparr>]\<rparr>)"
  by (simp add: setNewEntry_def setLastNode_snoc)

lemma addNode_Inr:
  assumes "addNode alloc h path root nd = (Inr r, h')"
  shows "\<exists>d file dn n e.
           getParentDirectory h path root = Inr (d, file) \<and> pathfind h file d = Inl e
           \<and> h d = Some dn \<and> isDir dn \<and> data dn \<noteq> [] \<and> h nd = Some n \<and> nlink n \<noteq> INT_MAX
           \<and> r = nd
           \<and> (nd \<noteq> d \<longrightarrow>
                h' = h(d \<mapsto> dn\<lparr>data := data dn @ [\<lparr>name = file, node = nd\<rparr>]\<rparr>,
                       nd \<mapsto> n\<lparr>nlink := nlink n + 1,
                                parent := (if parent n = 0 then d else parent n)\<rparr>))"
proof -
  from assms obtain d fl where g: "getParentDirectory h path root = Inr (d, fl)"
    by (auto simp: addNode_def split: sum.splits)
  from getParentDirectory_Inr[OF g] obtain dn where dn: "h d = Some dn" "isDir dn" by blast
  from assms g obtain e where e: "pathfind h fl d = Inl e" "\<not> crashed e"
    by (auto simp: addNode_def split: sum.splits if_splits)
  from assms g e dn obtain list where l: "addEntry alloc (data dn) fl = Inr list"
    by (auto simp: addNode_def split: sum.splits)
  hence ne: "data dn \<noteq> []" and list: "list = data dn @ [\<lparr>name = fl, node = 0\<rparr>]"
    by (auto simp: addEntry_eq split: if_splits)
  let ?h1 = "h(d \<mapsto> dn\<lparr>data := list\<rparr>)"
  from assms g e dn l obtain n1 where n1: "?h1 nd = Some n1" "nlink n1 \<noteq> INT_MAX"
    and r: "r = nd"
    and h': "h' = setNewEntry (?h1(nd \<mapsto> n1\<lparr>nlink := nlink n1 + 1,
                     parent := (if parent n1 = 0 then d else parent n1)\<rparr>)) d nd"
    by (auto simp: addNode_def Let_def split: option.splits if_splits)
  from n1 dn obtain n where n: "h nd = Some n" "nlink n \<noteq> INT_MAX"
    by (cases "nd = d") (auto split: if_splits)
  have "h' = h(d \<mapsto> dn\<lparr>data := data dn @ [\<lparr>name = fl, node = nd\<rparr>]\<rparr>,
                       nd \<mapsto> n\<lparr>nlink := nlink n + 1,
                                parent := (if parent n = 0 then d else parent n)\<rparr>)"
    if "nd \<noteq> d"
  proof -
    from that n1 n have "n1 = n" by simp
    with that h' list show ?thesis
      by (subst (asm) setNewEntry_snoc[where dn = "dn\<lparr>data := list\<rparr>" and list = "data dn"
            and e = "\<lparr>name = fl, node = 0\<rparr>"])
         (auto simp: fun_upd_twist)
  qed
  with g e dn ne n r show ?thesis by blast
qed

paragraph \<open>How the notions of the invariant change with the store\<close>

lemma is_dir_upd [simp]:
  "is_dir (h(b \<mapsto> n)) y = (if y = b then isDir n else is_dir h y)"
  "is_dir (h(b := None)) y = (if y = b then False else is_dir h y)"
  by (simp_all add: is_dir_def)

lemma dotdot_upd_other [simp]: "y \<noteq> b \<Longrightarrow> dotdot (h(b := v)) y = dotdot h y"
  by (simp add: dotdot_def)

lemma dotdot_upd_same [simp]:
  "dotdot (h(b \<mapsto> n)) b = (case data n of p # q # rest \<Rightarrow> node q | _ \<Rightarrow> 0)"
  by (simp add: dotdot_def)

lemma is_dir_live: "is_dir h y \<Longrightarrow> h y \<noteq> None"
  by (auto simp: is_dir_def split: option.splits)

lemma children_cong:
  "(\<And>e. e \<in> set (data n) \<Longrightarrow> name e \<noteq> ''.'' \<Longrightarrow> name e \<noteq> ''..''
       \<Longrightarrow> is_dir h' (node e) = is_dir h (node e))
   \<Longrightarrow> children h' n = children h n"
  unfolding children_def by (rule filter_cong) auto

lemma nedges_alloc:
  assumes "finite (dom h)" "h a = None" "name_cells n = []"
  shows "nedges (h(a \<mapsto> n)) x = nedges h x"
  using nedges_upd[OF assms(1), of a "Some n" x] assms(2,3)
  by (simp add: cells_to_def)

lemma nedges_free:
  assumes "finite (dom h)" "h a = Some n" "name_cells n = []"
  shows "nedges (h(a := None)) x = nedges h x"
  using nedges_upd[OF assms(1), of a None x] assms(2,3)
  by (simp add: cells_to_def)

lemma nedges_same_cells:
  assumes "finite (dom h)" "h d = Some dn" "name_cells dn' = name_cells dn"
  shows "nedges (h(d \<mapsto> dn')) x = nedges h x"
  using nedges_upd[OF assms(1), of d "Some dn'" x] assms(2,3)
  by (simp add: cells_to_def)

lemma nedges_append:
  assumes "finite (dom h)" "h d = Some dn" "name_cells dn' = name_cells dn @ [c]"
  shows "nedges (h(d \<mapsto> dn')) x = nedges h x + (if node c = x then 1 else 0)"
  using nedges_upd[OF assms(1), of d "Some dn'" x] assms(2,3)
  by (simp add: cells_to_def)

lemma nedges_remove:
  assumes "finite (dom h)" "h d = Some dn" "name_cells dn = pre @ e # post"
    "name_cells dn' = pre @ post"
  shows "nedges (h(d \<mapsto> dn')) x + (if node e = x then 1 else 0) = nedges h x"
  using nedges_upd[OF assms(1), of d "Some dn'" x] assms(2,3,4)
  by (auto simp: cells_to_def split: if_splits)

paragraph \<open>Consequences of the invariant\<close>

lemma inv_node: "store_inv root h \<Longrightarrow> h a = Some n \<Longrightarrow> node_ok root h a n"
  by (simp add: store_inv_def)

lemma inv_finite: "store_inv root h \<Longrightarrow> finite (dom h)"
  by (simp add: store_inv_def)

lemma inv_dir_shape:
  assumes "store_inv root h" "h a = Some n" "isDir n"
  obtains p rest where "data n = \<lparr>name = ''.'', node = a\<rparr> # \<lparr>name = ''..'', node = p\<rparr> # rest"
    "name_cells n = rest" "dotdot h a = p" "is_dir h p"
proof -
  from inv_node[OF assms(1,2)] assms(3) obtain p rest where
    d: "data n = \<lparr>name = ''.'', node = a\<rparr> # \<lparr>name = ''..'', node = p\<rparr> # rest"
    and pd: "is_dir h (dotdot h a)"
    by (auto simp: node_ok_def)
  from d assms(2) have "dotdot h a = p" by (simp add: dotdot_def)
  with d pd that show thesis by (simp add: name_cells_def)
qed

lemma inv_file_shape:
  "store_inv root h \<Longrightarrow> h a = Some n \<Longrightarrow> \<not> isDir n \<Longrightarrow> data n = [] \<and> name_cells n = []"
  by (auto dest!: inv_node simp: node_ok_def name_cells_def)

lemma inv_cells_live:
  assumes "store_inv root h" "h a = Some n" "e \<in> set (name_cells n)"
  shows "h (node e) \<noteq> None"
proof (cases "isDir n")
  case True
  with inv_node[OF assms(1,2)] assms(3) show ?thesis by (auto simp: node_ok_def)
next
  case False
  with inv_file_shape[OF assms(1,2)] assms(3) show ?thesis by simp
qed

lemma inv_closed:
  assumes "store_inv root h" "h a = Some n" "e \<in> set (data n)"
  shows "h (node e) \<noteq> None"
proof (cases "isDir n")
  case True
  from inv_dir_shape[OF assms(1,2) True] obtain p rest where
    d: "data n = \<lparr>name = ''.'', node = a\<rparr> # \<lparr>name = ''..'', node = p\<rparr> # rest"
    and nc: "name_cells n = rest" and pd: "is_dir h p" by metis
  from assms(3) d consider "e = \<lparr>name = ''.'', node = a\<rparr>" | "e = \<lparr>name = ''..'', node = p\<rparr>"
    | "e \<in> set rest" by auto
  then show ?thesis
  proof cases
    case 1
    with assms(2) show ?thesis by simp
  next
    case 2
    with pd show ?thesis by (auto dest: is_dir_live)
  next
    case 3
    with nc inv_cells_live[OF assms(1,2)] show ?thesis by simp
  qed
next
  case False
  with inv_file_shape[OF assms(1,2)] assms(3) show ?thesis by simp
qed

lemma inv_fresh_no_edges:
  assumes "store_inv root h" "h a = None"
  shows "nedges h a = 0"
proof -
  have "\<forall>d n. h d = Some n \<longrightarrow> a \<notin> node ` set (name_cells n)"
    using inv_cells_live[OF assms(1)] assms(2) by fastforce
  with nedges_zero_iff[OF inv_finite[OF assms(1)]] show ?thesis by simp
qed

lemma node_ok_frame:
  assumes ok: "node_ok root h a n" and live: "h a = Some n"
    and agree: "\<And>y. h y \<noteq> None \<Longrightarrow> y = a \<or> y = dotdot h a \<or> y \<in> node ` set (name_cells n)
                  \<Longrightarrow> h' y \<noteq> None \<and> is_dir h' y = is_dir h y \<and> dotdot h' y = dotdot h y"
    and edges: "nedges h' a = nedges h a"
  shows "node_ok root h' a n"
proof (cases "isDir n")
  case False
  with ok edges show ?thesis by (simp add: node_ok_def)
next
  case True
  from ok True obtain p rest where
    d: "data n = \<lparr>name = ''.'', node = a\<rparr> # \<lparr>name = ''..'', node = p\<rparr> # rest"
    and pd: "is_dir h (dotdot h a)" and rt: "a = root \<longrightarrow> dotdot h a = root"
    and cells: "\<forall>e\<in>set (name_cells n).
              h (node e) \<noteq> None \<and> (is_dir h (node e) \<longrightarrow> dotdot h (node e) = a)"
    and nl: "nlink n = (if a = root then 3 else 2) + int (length (children h n))"
    and ne: "nedges h a = (if a = root then 0 else 1)"
    by (auto simp: node_ok_def)
  have nc: "name_cells n = rest" using d by (simp add: name_cells_def)
  from agree[of a] live have da: "dotdot h' a = dotdot h a" by simp
  from agree[of "dotdot h a"] pd have pd': "is_dir h' (dotdot h a)"
    by (auto dest: is_dir_live)
  have cells': "\<forall>e\<in>set (name_cells n).
              h' (node e) \<noteq> None \<and> (is_dir h' (node e) \<longrightarrow> dotdot h' (node e) = a)"
    using cells agree by (metis imageI)
  have "children h' n = children h n"
  proof (rule children_cong)
    fix e assume "e \<in> set (data n)" "name e \<noteq> ''.''" "name e \<noteq> ''..''"
    with d nc have "e \<in> set (name_cells n)" by auto
    with cells agree[of "node e"] show "is_dir h' (node e) = is_dir h (node e)" by auto
  qed
  with True d da pd' rt cells' nl ne edges show ?thesis
    by (auto simp: node_ok_def)
qed

lemma children_shape:
  "data n = \<lparr>name = ''.'', node = a\<rparr> # \<lparr>name = ''..'', node = p\<rparr> # rest
     \<Longrightarrow> children h n = filter (\<lambda>e. name e \<noteq> ''.'' \<and> name e \<noteq> ''..'' \<and> is_dir h (node e)) rest"
  by (simp add: children_def)

lemma nedges_upd_nocells:
  assumes "finite (dom h)" "cells_to h x a = 0" "name_cells n = []"
  shows "nedges (h(a \<mapsto> n)) x = nedges h x"
  using nedges_upd[OF assms(1), of a "Some n" x] assms(2,3)
  by (simp add: cells_to_def)

lemma inv_nonzero: "store_inv root h \<Longrightarrow> h d = Some dn \<Longrightarrow> d \<noteq> 0"
  by (metis option.distinct(1) store_inv_def)

lemma inv_dir_parts:
  assumes "store_inv root h" "h d = Some dn" "isDir dn"
  shows "d = root \<longrightarrow> dotdot h d = root"
    and "\<forall>e\<in>set (name_cells dn).
              h (node e) \<noteq> None \<and> (is_dir h (node e) \<longrightarrow> dotdot h (node e) = d)"
    and "nlink dn = (if d = root then 3 else 2) + int (length (children h dn))"
    and "nedges h d = (if d = root then 0 else 1)"
  using inv_node[OF assms(1,2)] assms(3) by (auto simp: node_ok_def)

lemma inv_file_nlink:
  "store_inv root h \<Longrightarrow> h a = Some n \<Longrightarrow> \<not> isDir n \<Longrightarrow> nlink n = int (nedges h a)"
  by (auto dest!: inv_node simp: node_ok_def)

text \<open>
  A cell for a regular file \<open>x\<close> is appended to directory \<open>d\<close>; the file is new or
  was in the store, and its link count becomes one more than its name cells were.
\<close>

lemma pres_addfile:
  assumes inv: "store_inv root h" and x: "x \<noteq> 0" "\<not> is_dir h x"
    and d: "h d = Some dn" "isDir dn"
    and f: "\<not> isDir f" "data f = []" "nlink f = int (nedges h x) + 1"
  shows "store_inv root (h(d \<mapsto> dn\<lparr>data := data dn @ [\<lparr>name = nm, node = x\<rparr>]\<rparr>, x \<mapsto> f))"
proof -
  define c where "c = \<lparr>name = nm, node = x\<rparr>"
  define dn' where "dn' = dn\<lparr>data := data dn @ [c]\<rparr>"
  define h' where "h' = h(d \<mapsto> dn', x \<mapsto> f)"
  note fin = inv_finite[OF inv]
  have ad: "x \<noteq> d" using x d by (auto simp: is_dir_def)
  have h'a: "h' x = Some f" and h'd: "h' d = Some dn'"
    and h'o: "\<And>b. b \<noteq> x \<Longrightarrow> b \<noteq> d \<Longrightarrow> h' b = h b"
    using ad by (simp_all add: h'_def)
  from inv_dir_shape[OF inv d] obtain p rest where
    sh: "data dn = \<lparr>name = ''.'', node = d\<rparr> # \<lparr>name = ''..'', node = p\<rparr> # rest"
    and nc: "name_cells dn = rest" and dd: "dotdot h d = p" and pd: "is_dir h p" by metis
  have sh': "data dn' = \<lparr>name = ''.'', node = d\<rparr> # \<lparr>name = ''..'', node = p\<rparr> # (rest @ [c])"
    and md': "isDir dn'" and nl': "nlink dn' = nlink dn"
    using sh d(2) by (simp_all add: dn'_def isDir_def)
  have nc': "name_cells dn' = name_cells dn @ [c]" using sh sh' by (simp add: name_cells_def)
  have ncf: "name_cells f = []" using f by (simp add: name_cells_def)
  have oldx: "data xn = []" if "h x = Some xn" for xn
    using inv_file_shape[OF inv that] x that by (simp add: is_dir_def)
  have edges: "nedges h' y = nedges h y + (if y = x then 1 else 0)" for y
  proof -
    have "finite (dom (h(d \<mapsto> dn')))" using fin by simp
    moreover have "cells_to (h(d \<mapsto> dn')) y x = 0"
      using ad oldx by (auto simp: cells_to_def name_cells_def split: option.splits)
    ultimately have "nedges h' y = nedges (h(d \<mapsto> dn')) y"
      unfolding h'_def using ncf by (rule nedges_upd_nocells)
    with nedges_append[OF fin d(1) nc', of y] show ?thesis by (auto simp: c_def)
  qed
  have isd: "is_dir h' y = is_dir h y" for y
    using x d f md' by (auto simp: h'_def is_dir_def)
  have dot: "dotdot h' y = dotdot h y" if "h y \<noteq> None" for y
    using that sh sh' d f oldx by (auto simp: h'_def dotdot_def)
  have live: "h' y \<noteq> None" if "h y \<noteq> None" for y using that by (simp add: h'_def)
  have "node_ok root h' b n" if b: "h' b = Some n" for b n
  proof -
    consider "b = x" | "b = d" | "b \<noteq> x" "b \<noteq> d" by blast
    then show ?thesis
    proof cases
      case 1
      with b h'a have "n = f" by simp
      with 1 f edges[of x] show ?thesis
        by (simp add: node_ok_def)
    next
      case 2
      with b h'd have n: "n = dn'" by simp
      note parts = inv_dir_parts[OF inv d]
      have ch: "children h' dn' = children h dn"
        by (simp add: children_shape[OF sh] children_shape[OF sh'] isd x c_def)
      have dd': "dotdot h' d = p" using dot[of d] d dd by simp
      have cells': "\<forall>e\<in>set (name_cells dn').
              h' (node e) \<noteq> None \<and> (is_dir h' (node e) \<longrightarrow> dotdot h' (node e) = d)"
        using parts(2) isd dot live x h'a unfolding nc' by (auto simp: c_def)
      show ?thesis
        unfolding n node_ok_def
        using md' sh' dd' dd pd parts(1,3,4) cells' nl' ch edges[of d] ad 2 isd
        by auto
    next
      case 3
      with b h'o have hb: "h b = Some n" by simp
      show ?thesis
      proof (rule node_ok_frame[OF inv_node[OF inv hb] hb])
        show "nedges h' b = nedges h b" using edges[of b] 3 by simp
      next
        fix y assume "h y \<noteq> None"
        with live[of y] isd[of y] dot[of y]
        show "h' y \<noteq> None \<and> is_dir h' y = is_dir h y \<and> dotdot h' y = dotdot h y"
          by blast
      qed
    qed
  qed
  moreover have "finite (dom h')" using fin by (simp add: h'_def)
  moreover have "h' 0 = None"
    using inv inv_nonzero[OF inv d(1)] x(1) by (simp add: h'_def store_inv_def)
  moreover have "is_dir h' root" using isd inv by (simp add: store_inv_def)
  ultimately have "store_inv root h'" unfolding store_inv_def by blast
  thus ?thesis by (simp add: h'_def dn'_def c_def)
qed

text \<open>A new, empty directory \<open>a\<close> is entered in directory \<open>d\<close>.\<close>

lemma pres_newdir:
  assumes inv: "store_inv root h" and fresh: "h a = None" "a \<noteq> 0"
    and d: "h d = Some dn" "isDir dn"
    and nm: "nm \<noteq> ''.''" "nm \<noteq> ''..''"
    and f: "isDir f" "data f = [\<lparr>name = ''.'', node = a\<rparr>, \<lparr>name = ''..'', node = d\<rparr>]"
      "nlink f = 2"
  shows "store_inv root
           (h(d \<mapsto> dn\<lparr>data := data dn @ [\<lparr>name = nm, node = a\<rparr>], nlink := nlink dn + 1\<rparr>,
              a \<mapsto> f))"
proof -
  define c where "c = \<lparr>name = nm, node = a\<rparr>"
  define dn' where "dn' = dn\<lparr>data := data dn @ [c], nlink := nlink dn + 1\<rparr>"
  define h' where "h' = h(d \<mapsto> dn', a \<mapsto> f)"
  note fin = inv_finite[OF inv]
  have ad: "a \<noteq> d" using fresh d by auto
  have ar: "a \<noteq> root" using inv fresh by (auto simp: store_inv_def is_dir_def)
  have h'a: "h' a = Some f" and h'd: "h' d = Some dn'"
    and h'o: "\<And>b. b \<noteq> a \<Longrightarrow> b \<noteq> d \<Longrightarrow> h' b = h b"
    using ad by (simp_all add: h'_def)
  from inv_dir_shape[OF inv d] obtain p rest where
    sh: "data dn = \<lparr>name = ''.'', node = d\<rparr> # \<lparr>name = ''..'', node = p\<rparr> # rest"
    and nc: "name_cells dn = rest" and dd: "dotdot h d = p" and pd: "is_dir h p" by metis
  have sh': "data dn' = \<lparr>name = ''.'', node = d\<rparr> # \<lparr>name = ''..'', node = p\<rparr> # (rest @ [c])"
    and md': "isDir dn'" and nl': "nlink dn' = nlink dn + 1"
    using sh d(2) by (simp_all add: dn'_def isDir_def)
  have nc': "name_cells dn' = name_cells dn @ [c]" using sh sh' by (simp add: name_cells_def)
  have ncf: "name_cells f = []" using f by (simp add: name_cells_def)
  have edges: "nedges h' y = nedges h y + (if y = a then 1 else 0)" for y
  proof -
    have "finite (dom (h(d \<mapsto> dn')))" using fin by simp
    from nedges_alloc[OF this _ ncf, of a y] nedges_append[OF fin d(1) nc', of y] ad fresh
    show ?thesis by (auto simp: h'_def c_def)
  qed
  have isd: "is_dir h' y = is_dir h y" if "y \<noteq> a" for y
    using that d md' by (auto simp: h'_def is_dir_def)
  have isa: "is_dir h' a" using f by (simp add: h'_def)
  have dot: "dotdot h' y = dotdot h y" if "h y \<noteq> None" for y
    using that fresh sh sh' d by (auto simp: h'_def dotdot_def)
  have dota: "dotdot h' a = d" using f by (simp add: h'_def dotdot_def)
  have live: "h' y \<noteq> None" if "h y \<noteq> None" for y using that by (simp add: h'_def)
  have nea: "y \<noteq> a" if "h y \<noteq> None" for y using that fresh by auto
  have "node_ok root h' b n" if b: "h' b = Some n" for b n
  proof -
    consider "b = a" | "b = d" | "b \<noteq> a" "b \<noteq> d" by blast
    then show ?thesis
    proof cases
      case 1
      with b h'a have n: "n = f" by simp
      have "children h' f = []" using f by (simp add: children_def)
      moreover have "is_dir h' d" using isd[of d] ad d by (simp add: is_dir_def)
      ultimately show ?thesis
        unfolding n node_ok_def
        using 1 f ar dota ncf edges[of a] inv_fresh_no_edges[OF inv fresh(1)]
        by simp
    next
      case 2
      with b h'd have n: "n = dn'" by simp
      note parts = inv_dir_parts[OF inv d]
      have old: "is_dir h' (node e) = is_dir h (node e)" if "e \<in> set rest" for e
        using parts(2) nc that nea isd by auto
      have "filter (\<lambda>e. name e \<noteq> ''.'' \<and> name e \<noteq> ''..'' \<and> is_dir h' (node e)) rest
            = filter (\<lambda>e. name e \<noteq> ''.'' \<and> name e \<noteq> ''..'' \<and> is_dir h (node e)) rest"
        by (rule filter_cong) (auto simp: old)
      hence ch: "length (children h' dn') = length (children h dn) + 1"
        using isa nm by (simp add: children_shape[OF sh] children_shape[OF sh'] c_def)
      have dd': "dotdot h' d = p" using dot[of d] d dd by simp
      have pd': "is_dir h' p" using pd isd[of p] nea[of p] by (auto dest: is_dir_live)
      have cells': "\<forall>e\<in>set (name_cells dn').
              h' (node e) \<noteq> None \<and> (is_dir h' (node e) \<longrightarrow> dotdot h' (node e) = d)"
        using parts(2) isd dot live nea h'a dota unfolding nc' by (auto simp: c_def)
      show ?thesis
        unfolding n node_ok_def
        using md' sh' dd' dd pd' parts(1,3,4) cells' nl' ch edges[of d] ad 2
        by auto
    next
      case 3
      with b h'o have hb: "h b = Some n" by simp
      show ?thesis
      proof (rule node_ok_frame[OF inv_node[OF inv hb] hb])
        show "nedges h' b = nedges h b" using edges[of b] 3 by simp
      next
        fix y assume "h y \<noteq> None"
        with live[of y] isd[of y] dot[of y] nea[of y]
        show "h' y \<noteq> None \<and> is_dir h' y = is_dir h y \<and> dotdot h' y = dotdot h y"
          by blast
      qed
    qed
  qed
  moreover have "finite (dom h')" using fin by (simp add: h'_def)
  moreover have "h' 0 = None"
    using inv inv_nonzero[OF inv d(1)] fresh(2) by (simp add: h'_def store_inv_def)
  moreover have "is_dir h' root" using isd[of root] ar inv by (simp add: store_inv_def)
  ultimately have "store_inv root h'" unfolding store_inv_def by blast
  thus ?thesis by (simp add: h'_def dn'_def c_def)
qed

lemma nedges_upd_nocells2:
  assumes "finite (dom h)" "cells_to h x a = 0" "cells_to (h(a := v)) x a = 0"
  shows "nedges (h(a := v)) x = nedges h x"
  using nedges_upd[OF assms(1), of a v x] assms(2,3) by simp

lemma inv_edge_parent:
  assumes inv: "store_inv root h" and b: "h b = Some n" "isDir n" "b \<noteq> root"
  shows "\<exists>pn. h (dotdot h b) = Some pn \<and> name_cells pn \<noteq> []"
proof -
  from inv_dir_parts(4)[OF inv b(1,2)] b(3) have "nedges h b \<noteq> 0" by simp
  with nedges_zero_iff[OF inv_finite[OF inv], of b] obtain d' n' e where
    d': "h d' = Some n'" and e: "e \<in> set (name_cells n')" "node e = b" by auto
  have "isDir n'"
  proof (rule ccontr)
    assume "\<not> isDir n'"
    from inv_file_shape[OF inv d' this] e show False by simp
  qed
  from inv_dir_parts(2)[OF inv d' this] e b have "dotdot h b = d'"
    by (auto simp: is_dir_def)
  with d' e show ?thesis by auto
qed

lemma dotdot_not_empty_dir:
  assumes inv: "store_inv root h" and b: "h b = Some n" "isDir n"
    and x: "h x = Some xn" "name_cells xn = []" "x \<noteq> root"
  shows "dotdot h b \<noteq> x"
proof (cases "b = root")
  case True
  with inv_dir_parts(1)[OF inv b] x(3) show ?thesis by simp
next
  case False
  from inv_edge_parent[OF inv b False] x show ?thesis by auto
qed

text \<open>
  The cell \<open>e\<close> of a regular file is removed from directory \<open>d\<close>; the file's link count
  goes down by one, and the file may be freed when that was its last name cell.
\<close>

lemma pres_unlink:
  assumes inv: "store_inv root h"
    and d: "h d = Some dn" "isDir dn"
    and sh: "data dn = dt # ddt # pre @ e # post"
    and x: "h (node e) = Some xn" "\<not> isDir xn"
    and v: "v = Some (xn\<lparr>nlink := nlink xn - 1\<rparr>) \<or> (v = None \<and> nlink xn = 1)"
  shows "store_inv root (h(node e := v, d \<mapsto> dn\<lparr>data := dt # ddt # pre @ post\<rparr>))"
proof -
  define x where "x = node e"
  define dn' where "dn' = dn\<lparr>data := dt # ddt # pre @ post\<rparr>"
  define h' where "h' = h(x := v, d \<mapsto> dn')"
  note fin = inv_finite[OF inv]
  have hx: "h x = Some xn" using x(1) by (simp add: x_def)
  have xd: "x \<noteq> d" using hx x(2) d by auto
  have h'x: "h' x = v" and h'd: "h' d = Some dn'"
    and h'o: "\<And>b. b \<noteq> x \<Longrightarrow> b \<noteq> d \<Longrightarrow> h' b = h b"
    using xd by (simp_all add: h'_def)
  have fin': "finite (dom h')" using fin by (simp add: h'_def)
  from inv_dir_shape[OF inv d] sh obtain p where
    dt: "dt = \<lparr>name = ''.'', node = d\<rparr>" "ddt = \<lparr>name = ''..'', node = p\<rparr>"
    and dd: "dotdot h d = p" and pd: "is_dir h p" by (metis list.inject)
  have nc: "name_cells dn = pre @ e # post" using sh by (simp add: name_cells_def)
  have sh': "data dn' = \<lparr>name = ''.'', node = d\<rparr> # \<lparr>name = ''..'', node = p\<rparr> # (pre @ post)"
    and md': "isDir dn'" and nl': "nlink dn' = nlink dn"
    using dt d(2) by (simp_all add: dn'_def isDir_def)
  have nc': "name_cells dn' = pre @ post" using sh' by (simp add: name_cells_def)
  have dxn: "data xn = []" using inv_file_shape[OF inv hx x(2)] by simp
  have dv: "data vn = []" "\<not> isDir vn" if "v = Some vn" for vn
    using that v dxn x(2) by (auto simp: isDir_def)
  have edges: "nedges h' y + (if y = x then 1 else 0) = nedges h y" for y
  proof -
    have "cells_to h y x = 0" using hx dxn by (simp add: cells_to_def name_cells_def)
    moreover have "cells_to (h(x := v)) y x = 0"
      using dv by (auto simp: cells_to_def name_cells_def split: option.splits)
    ultimately have a: "nedges (h(x := v)) y = nedges h y"
      using fin by (intro nedges_upd_nocells2)
    have "finite (dom (h(x := v)))" using fin by simp
    moreover have "(h(x := v)) d = Some dn" using xd d by simp
    ultimately have "nedges h' y + (if node e = y then 1 else 0) = nedges (h(x := v)) y"
      unfolding h'_def using nc nc' by (rule nedges_remove)
    with a show ?thesis by (auto simp: x_def)
  qed
  have nlx: "nlink xn = int (nedges h x)" by (rule inv_file_nlink[OF inv hx x(2)])
  have nox: "x \<notin> node ` set (name_cells n)" if "v = None" "h' b = Some n" for b n
  proof -
    from that(1) v nlx edges[of x] have "nedges h' x = 0" by auto
    with nedges_zero_iff[OF fin', of x] that(2) show ?thesis by blast
  qed
  have isd: "is_dir h' y = is_dir h y" for y
    using hx x(2) d md' dv by (auto simp: h'_def is_dir_def split: option.splits)
  have dot: "dotdot h' y = dotdot h y" for y
    using hx dxn dv sh sh' dt d by (auto simp: h'_def dotdot_def split: option.splits)
  have live: "h' y \<noteq> None" if "h y \<noteq> None" "y \<noteq> x \<or> v \<noteq> None" for y
    using that by (auto simp: h'_def)
  have "node_ok root h' b n" if b: "h' b = Some n" for b n
  proof -
    consider "b = x" | "b = d" | "b \<noteq> x" "b \<noteq> d" by blast
    then show ?thesis
    proof cases
      case 1
      with b h'x v have n: "n = xn\<lparr>nlink := nlink xn - 1\<rparr>" by auto
      show ?thesis
        unfolding n node_ok_def using 1 x(2) dxn nlx edges[of x]
        by (auto simp: isDir_def)
    next
      case 2
      with b h'd have n: "n = dn'" by simp
      note parts = inv_dir_parts[OF inv d]
      have "\<not> is_dir h (node e)" using x by (simp add: is_dir_def)
      hence ch: "children h' dn' = children h dn"
        using dt by (simp add: children_def sh dn'_def isd)
      have dd': "dotdot h' d = p" using dot[of d] dd by simp
      have cells': "\<forall>e'\<in>set (name_cells dn').
              h' (node e') \<noteq> None \<and> (is_dir h' (node e') \<longrightarrow> dotdot h' (node e') = d)"
      proof
        fix e' assume e': "e' \<in> set (name_cells dn')"
        hence "e' \<in> set (name_cells dn)" using nc nc' by auto
        with parts(2) have old: "h (node e') \<noteq> None"
          "is_dir h (node e') \<longrightarrow> dotdot h (node e') = d" by auto
        have "node e' \<noteq> x \<or> v \<noteq> None" using nox[OF _ h'd] e' by auto
        with old live[of "node e'"] isd dot
        show "h' (node e') \<noteq> None \<and> (is_dir h' (node e') \<longrightarrow> dotdot h' (node e') = d)"
          by auto
      qed
      show ?thesis
        unfolding n node_ok_def
        using md' sh' dd' dd pd parts(1,3,4) cells' nl' ch edges[of d] xd 2 isd
        by auto
    next
      case 3
      with b h'o have hb: "h b = Some n" by simp
      show ?thesis
      proof (rule node_ok_frame[OF inv_node[OF inv hb] hb])
        show "nedges h' b = nedges h b" using edges[of b] 3 by simp
      next
        fix y assume ly: "h y \<noteq> None"
          and ry: "y = b \<or> y = dotdot h b \<or> y \<in> node ` set (name_cells n)"
        have "y \<noteq> x \<or> v \<noteq> None"
        proof (cases "v = None")
          case False
          thus ?thesis by simp
        next
          case True
          from ry have "y \<noteq> x"
          proof (elim disjE)
            assume "y = b" with 3 show ?thesis by simp
          next
            assume yb: "y = dotdot h b"
            show ?thesis
            proof (cases "isDir n")
              case True
              from inv_dir_shape[OF inv hb True] have "is_dir h (dotdot h b)" by metis
              with yb hx x(2) show ?thesis by (auto simp: is_dir_def)
            next
              case False
              from inv_file_shape[OF inv hb False] hb have "dotdot h b = 0"
                by (simp add: dotdot_def)
              with yb ly inv show ?thesis by (simp add: store_inv_def)
            qed
          next
            assume "y \<in> node ` set (name_cells n)"
            with nox[OF True b] show ?thesis by auto
          qed
          thus ?thesis by simp
        qed
        with live[OF ly] isd[of y] dot[of y]
        show "h' y \<noteq> None \<and> is_dir h' y = is_dir h y \<and> dotdot h' y = dotdot h y"
          by blast
      qed
    qed
  qed
  moreover have "h' 0 = None"
    using inv inv_nonzero[OF inv d(1)] inv_nonzero[OF inv hx] by (simp add: h'_def store_inv_def)
  moreover have "is_dir h' root" using isd inv by (simp add: store_inv_def)
  ultimately have "store_inv root h'" using fin' unfolding store_inv_def by blast
  thus ?thesis by (simp add: h'_def dn'_def x_def)
qed

text \<open>The cell \<open>e\<close> of an empty directory is removed from directory \<open>d\<close> and the directory freed.\<close>

lemma pres_rmdir:
  assumes inv: "store_inv root h"
    and d: "h d = Some dn" "isDir dn"
    and sh: "data dn = dt # ddt # pre @ e # post"
    and nme: "name e \<noteq> ''.''" "name e \<noteq> ''..''"
    and x: "h (node e) = Some xn" "isDir xn" "length (data xn) = 2"
  shows "store_inv root
           (h(node e := None, d \<mapsto> dn\<lparr>nlink := nlink dn - 1, data := dt # ddt # pre @ post\<rparr>))"
proof -
  define x where "x = node e"
  define dn' where "dn' = dn\<lparr>nlink := nlink dn - 1, data := dt # ddt # pre @ post\<rparr>"
  define h' where "h' = h(x := None, d \<mapsto> dn')"
  note fin = inv_finite[OF inv]
  have hx: "h x = Some xn" using x(1) by (simp add: x_def)
  have nc: "name_cells dn = pre @ e # post" using sh by (simp add: name_cells_def)
  have ncx: "name_cells xn = []" using x(3) by (simp add: name_cells_def)
  have xd: "x \<noteq> d" using hx d nc ncx by auto
  have c1: "1 \<le> cells_to h x d" using d nc by (simp add: cells_to_def x_def)
  have xr: "x \<noteq> root"
  proof
    assume "x = root"
    with inv_dir_parts(4)[OF inv hx x(2)] have "nedges h x = 0" by simp
    with nedges_ge_cells[OF fin, of x d] c1 show False by simp
  qed
  have nex: "nedges h x = 1" using inv_dir_parts(4)[OF inv hx x(2)] xr by simp
  have h'x: "h' x = None" and h'd: "h' d = Some dn'"
    and h'o: "\<And>b. b \<noteq> x \<Longrightarrow> b \<noteq> d \<Longrightarrow> h' b = h b"
    using xd by (simp_all add: h'_def)
  have fin': "finite (dom h')" using fin by (simp add: h'_def)
  from inv_dir_shape[OF inv d] sh obtain p where
    dt: "dt = \<lparr>name = ''.'', node = d\<rparr>" "ddt = \<lparr>name = ''..'', node = p\<rparr>"
    and dd: "dotdot h d = p" and pd: "is_dir h p" by (metis list.inject)
  have sh': "data dn' = \<lparr>name = ''.'', node = d\<rparr> # \<lparr>name = ''..'', node = p\<rparr> # (pre @ post)"
    and md': "isDir dn'" and nl': "nlink dn' = nlink dn - 1"
    using dt d(2) by (simp_all add: dn'_def isDir_def)
  have nc': "name_cells dn' = pre @ post" using sh' by (simp add: name_cells_def)
  have edges: "nedges h' y + (if y = x then 1 else 0) = nedges h y" for y
  proof -
    have a: "nedges (h(x := None)) y = nedges h y"
      using fin hx ncx by (rule nedges_free)
    have "finite (dom (h(x := None)))" using fin by simp
    moreover have "(h(x := None)) d = Some dn" using xd d by simp
    ultimately have "nedges h' y + (if node e = y then 1 else 0) = nedges (h(x := None)) y"
      unfolding h'_def using nc nc' by (rule nedges_remove)
    with a show ?thesis by (auto simp: x_def)
  qed
  have nox: "x \<notin> node ` set (name_cells n)" if "h' b = Some n" for b n
  proof -
    from nex edges[of x] have "nedges h' x = 0" by auto
    with nedges_zero_iff[OF fin', of x] that show ?thesis by blast
  qed
  have isd: "is_dir h' y = is_dir h y" if "y \<noteq> x" for y
    using that d md' by (auto simp: h'_def is_dir_def)
  have dot: "dotdot h' y = dotdot h y" if "y \<noteq> x" for y
    using that sh sh' dt d by (auto simp: h'_def dotdot_def)
  have live: "h' y \<noteq> None" if "h y \<noteq> None" "y \<noteq> x" for y
    using that by (auto simp: h'_def)
  have ddx: "dotdot h b \<noteq> x" if "h b = Some n" "isDir n" for b n
    using dotdot_not_empty_dir[OF inv that hx ncx xr] .
  have "node_ok root h' b n" if b: "h' b = Some n" for b n
  proof -
    from b h'x have bx: "b \<noteq> x" by auto
    show ?thesis
    proof (cases "b = d")
      case True
      with b h'd have n: "n = dn'" by simp
      note parts = inv_dir_parts[OF inv d]
      have same: "is_dir h' (node e') = is_dir h (node e')" if "e' \<in> set (pre @ post)" for e'
      proof -
        from nox[OF h'd] nc' that have "node e' \<noteq> x" by auto
        thus ?thesis by (rule isd)
      qed
      have "filter (\<lambda>e. name e \<noteq> ''.'' \<and> name e \<noteq> ''..'' \<and> is_dir h' (node e)) (pre @ post)
            = filter (\<lambda>e. name e \<noteq> ''.'' \<and> name e \<noteq> ''..'' \<and> is_dir h (node e)) (pre @ post)"
        by (rule filter_cong) (auto simp: same)
      moreover have "is_dir h (node e)" using x by (simp add: is_dir_def)
      ultimately have ch: "length (children h dn) = length (children h' dn') + 1"
        using dt nme by (simp add: children_def sh sh')
      have dd': "dotdot h' d = p" using dot[of d] dd xd by simp
      have px: "p \<noteq> x" using ddx[OF d] dd by simp
      have pd': "is_dir h' p" using pd isd[OF px] by simp
      have cells': "\<forall>e'\<in>set (name_cells dn').
              h' (node e') \<noteq> None \<and> (is_dir h' (node e') \<longrightarrow> dotdot h' (node e') = d)"
      proof
        fix e' assume e': "e' \<in> set (name_cells dn')"
        hence "e' \<in> set (name_cells dn)" using nc nc' by auto
        with parts(2) have old: "h (node e') \<noteq> None"
          "is_dir h (node e') \<longrightarrow> dotdot h (node e') = d" by auto
        have "node e' \<noteq> x" using nox[OF h'd] e' by auto
        with old live[of "node e'"] isd[of "node e'"] dot[of "node e'"]
        show "h' (node e') \<noteq> None \<and> (is_dir h' (node e') \<longrightarrow> dotdot h' (node e') = d)"
          by auto
      qed
      show ?thesis
        unfolding n node_ok_def
        using md' sh' dd' dd pd' parts(1,3,4) cells' nl' ch edges[of d] xd True
        by auto
    next
      case False
      with b bx h'o have hb: "h b = Some n" by simp
      show ?thesis
      proof (rule node_ok_frame[OF inv_node[OF inv hb] hb])
        show "nedges h' b = nedges h b" using edges[of b] bx by simp
      next
        fix y assume ly: "h y \<noteq> None"
          and ry: "y = b \<or> y = dotdot h b \<or> y \<in> node ` set (name_cells n)"
        from ry have "y \<noteq> x"
        proof (elim disjE)
          assume "y = b" with bx show ?thesis by simp
        next
          assume yb: "y = dotdot h b"
          show ?thesis
          proof (cases "isDir n")
            case True
            from ddx[OF hb True] yb show ?thesis by simp
          next
            case False
            from inv_file_shape[OF inv hb False] hb have "dotdot h b = 0"
              by (simp add: dotdot_def)
            with yb ly inv show ?thesis by (simp add: store_inv_def)
          qed
        next
          assume "y \<in> node ` set (name_cells n)"
          with nox[OF b] show ?thesis by auto
        qed
        with live[OF ly] isd[of y] dot[of y]
        show "h' y \<noteq> None \<and> is_dir h' y = is_dir h y \<and> dotdot h' y = dotdot h y"
          by blast
      qed
    qed
  qed
  moreover have "h' 0 = None"
    using inv inv_nonzero[OF inv d(1)] by (simp add: h'_def store_inv_def)
  moreover have "is_dir h' root" using isd[OF xr[symmetric]] inv by (simp add: store_inv_def)
  ultimately have "store_inv root h'" using fin' unfolding store_inv_def by blast
  thus ?thesis by (simp add: h'_def dn'_def x_def)
qed

paragraph \<open>The fresh store\<close>

lemma isDir_root_mode: "isDir (n\<lparr>mode := S_IRWXO OR S_IRWXG OR S_IRWXU OR S_IFDIR\<rparr>)"
  by (simp add: isDir_def consts_defs)

lemma inv_fresh:
  assumes "root \<noteq> 0"
  shows "store_inv root (newFilesystem root)"
proof -
  define r where "r = zero_inode\<lparr>mode := S_IRWXO OR S_IRWXG OR S_IRWXU OR S_IFDIR, nlink := 3,
      parent := root, data := [\<lparr>name = ''.'', node = root\<rparr>, \<lparr>name = ''..'', node = root\<rparr>]\<rparr>"
  have h: "newFilesystem root = [root \<mapsto> r]"
    by (simp add: newFilesystem_def r_def zero_inode_def)
  have dir: "isDir r" by (simp add: r_def isDir_def zero_inode_def consts_defs)
  have dat: "data r = [\<lparr>name = ''.'', node = root\<rparr>, \<lparr>name = ''..'', node = root\<rparr>]"
    and nl: "nlink r = 3" by (simp_all add: r_def)
  have nc: "name_cells r = []" using dat by (simp add: name_cells_def)
  have ne: "nedges [root \<mapsto> r] root = 0"
    using nc by (simp add: nedges_def cells_to_def)
  have "node_ok root [root \<mapsto> r] root r"
    unfolding node_ok_def using dir dat nl nc ne
    by (simp add: children_def dotdot_def)
  thus ?thesis
    unfolding h store_inv_def using assms dir by (auto simp: is_dir_def)
qed

paragraph \<open>Resolution inside a store that satisfies the invariant\<close>

lemma pathfind_closure:
  "\<forall>b n e. b \<in> S \<longrightarrow> h b = Some n \<longrightarrow> e \<in> set (data n) \<longrightarrow> node e \<in> S
     \<Longrightarrow> x \<in> S \<Longrightarrow> pathfind h p x = Inr y \<Longrightarrow> y \<in> S"
proof (induction h p x rule: pathfind.induct)
  case (1 h path root)
  define path1 where "path1 = (if path \<noteq> [] \<and> hd path = Split then tl path else path)"
  define n where "n = length (takeWhile (\<lambda>c. c \<noteq> Split) path1)"
  show ?case
  proof (cases "path1 = []")
    case True
    with "1.prems"(3) have "y = root"
      by (subst (asm) pathfind.simps) (simp add: path1_def[symmetric] split: if_splits)
    with "1.prems"(2) show ?thesis by simp
  next
    case False
    with "1.prems"(3) obtain r e where hr: "h root = Some r" and dir: "isDir r"
      and fe: "find (\<lambda>p. length (name p) = n \<and> take n path1 = name p) (data r) = Some e"
      and rec: "pathfind h (drop n path1) (node e) = Inr y"
      by (subst (asm) pathfind.simps)
         (auto simp: path1_def[symmetric] n_def[symmetric] Let_def split: option.splits if_splits)
    from fe have "e \<in> set (data r)" by (auto simp: find_Some_iff)
    with "1.prems"(1,2) hr have "node e \<in> S" by blast
    from "1.IH"[OF path1_def False hr _ n_def fe "1.prems"(1) this rec] dir
    show ?thesis by simp
  qed
qed

lemma pathfind_live:
  assumes "store_inv root h" "h x \<noteq> None" "pathfind h p x = Inr y"
  shows "h y \<noteq> None"
proof -
  have "y \<in> dom h"
  proof (rule pathfind_closure[where S = "dom h"])
    show "\<forall>b n e. b \<in> dom h \<longrightarrow> h b = Some n \<longrightarrow> e \<in> set (data n) \<longrightarrow> node e \<in> dom h"
      using inv_closed[OF assms(1)] by (auto simp: domIff)
  qed (use assms in auto)
  thus ?thesis by (simp add: domIff)
qed

lemma pathfind_avoids_fresh:
  assumes inv: "store_inv root h" and a: "h a = None" and x: "h x \<noteq> None"
    and pf: "pathfind (h(a \<mapsto> v)) p x = Inr y"
  shows "h y \<noteq> None"
proof -
  have "y \<in> dom h"
  proof (rule pathfind_closure[where S = "dom h" and h = "h(a \<mapsto> v)"])
    show "\<forall>b n e. b \<in> dom h \<longrightarrow> (h(a \<mapsto> v)) b = Some n \<longrightarrow> e \<in> set (data n)
            \<longrightarrow> node e \<in> dom h"
      using inv_closed[OF inv] a by (auto simp: domIff)
  qed (use x pf in auto)
  thus ?thesis by (simp add: domIff)
qed

lemma find_split:
  "find P xs = Some e \<Longrightarrow> \<exists>pre post. xs = pre @ e # post \<and> P e \<and> (\<forall>y\<in>set pre. \<not> P y)"
proof (induction xs)
  case Nil
  then show ?case by simp
next
  case (Cons x xs)
  show ?case
  proof (cases "P x")
    case True
    with Cons.prems have "x = e" by simp
    with True have "x # xs = [] @ e # xs \<and> P e \<and> (\<forall>y\<in>set []. \<not> P y)" by simp
    thus ?thesis by blast
  next
    case False
    with Cons.prems have "find P xs = Some e" by simp
    from Cons.IH[OF this] obtain pre post where
      "xs = pre @ e # post" "P e" "\<forall>y\<in>set pre. \<not> P y" by blast
    with False have "x # xs = (x # pre) @ e # post \<and> P e \<and> (\<forall>y\<in>set (x # pre). \<not> P y)"
      by simp
    thus ?thesis by blast
  qed
qed

lemma removeEntry_Inr:
  "removeEntry (p # es) nm = Inr (r, l)
     \<Longrightarrow> \<exists>pre e post. es = pre @ e # post \<and> name e = nm \<and> (\<forall>y\<in>set pre. name y \<noteq> nm)
           \<and> r = node e \<and> l = p # pre @ post"
proof (induction es arbitrary: p l)
  case Nil
  then show ?case by simp
next
  case (Cons q rest)
  show ?case
  proof (cases "nm = name q")
    case True
    with Cons.prems have "q # rest = [] @ q # rest \<and> name q = nm
        \<and> (\<forall>y\<in>set []. name y \<noteq> nm) \<and> r = node q \<and> l = p # [] @ rest" by simp
    thus ?thesis by blast
  next
    case False
    with Cons.prems obtain l' where rec: "removeEntry (q # rest) nm = Inr (r, l')"
      and l: "l = p # l'" by (auto split: sum.splits)
    from Cons.IH[OF rec] obtain pre e post where
      "rest = pre @ e # post" "name e = nm" "\<forall>y\<in>set pre. name y \<noteq> nm" "r = node e"
      "l' = q # pre @ post" by blast
    with False l have "q # rest = (q # pre) @ e # post \<and> name e = nm
        \<and> (\<forall>y\<in>set (q # pre). name y \<noteq> nm) \<and> r = node e \<and> l = p # (q # pre) @ post"
      by auto
    thus ?thesis by blast
  qed
qed

paragraph \<open>The modes of new inodes\<close>

lemma mknod_mode_not_dir: "\<not> isDir (n\<lparr>mode := md OR S_IFREG\<rparr>)"
proof
  assume "isDir (n\<lparr>mode := md OR S_IFREG\<rparr>)"
  hence eq: "(md OR 0x8000) AND (0xF000 :: 32 word) = 0x4000"
    by (simp add: isDir_def consts_defs)
  have "bit ((md OR 0x8000) AND (0xF000 :: 32 word)) 15" by (simp add: bit_simps)
  with eq have "bit (0x4000 :: 32 word) 15" by simp
  thus False by simp
qed

paragraph \<open>Every operation keeps the invariant\<close>

lemma inv_mknod:
  assumes inv: "store_inv root h" and fresh: "h a = None"
    and run: "ramMknod a alloc cuid cgid h root path md = (Inr (), h')"
  shows "store_inv root h'"
proof -
  define f0 where "f0 = zero_inode\<lparr>mode := md OR S_IFREG, uid := cuid, gid := cgid\<rparr>"
  define h0 where "h0 = h(a \<mapsto> f0)"
  from run have a0: "a \<noteq> 0" by (auto simp: ramMknod_def split: if_splits)
  from run a0 obtain r where add: "addNode alloc h0 path root a = (Inr r, h')"
    by (auto simp: ramMknod_def h0_def f0_def split: prod.splits sum.splits)
  have nd0: "\<not> isDir f0"
    using mknod_mode_not_dir[where n = zero_inode and md = md] by (simp add: f0_def isDir_def)
  from addNode_Inr[OF add] obtain d fl dn n where
    dn: "h0 d = Some dn" "isDir dn" and n: "h0 a = Some n"
    and h': "a \<noteq> d \<longrightarrow>
                h' = h0(d \<mapsto> dn\<lparr>data := data dn @ [\<lparr>name = fl, node = a\<rparr>]\<rparr>,
                       a \<mapsto> n\<lparr>nlink := nlink n + 1,
                                parent := (if parent n = 0 then d else parent n)\<rparr>)"
    by blast
  from n have nf: "n = f0" by (simp add: h0_def)
  from dn nd0 have ad: "a \<noteq> d" by (auto simp: h0_def split: if_splits)
  with dn have hd: "h d = Some dn" by (simp add: h0_def)
  define f1 where "f1 = f0\<lparr>nlink := nlink f0 + 1, parent := (if parent f0 = 0 then d else parent f0)\<rparr>"
  have eq: "h' = h(d \<mapsto> dn\<lparr>data := data dn @ [\<lparr>name = fl, node = a\<rparr>]\<rparr>, a \<mapsto> f1)"
    using h' ad nf by (simp add: h0_def f1_def fun_upd_twist)
  have "\<not> is_dir h a" using fresh by (simp add: is_dir_def)
  moreover have "\<not> isDir f1" using nd0 by (simp add: f1_def isDir_def)
  moreover have "data f1 = []" by (simp add: f1_def f0_def zero_inode_def)
  moreover have "nlink f1 = int (nedges h a) + 1"
    using inv_fresh_no_edges[OF inv fresh] by (simp add: f1_def f0_def zero_inode_def)
  ultimately show ?thesis
    unfolding eq using inv a0 hd dn(2) by (intro pres_addfile)
qed

lemma inv_link:
  assumes inv: "store_inv root h"
    and run: "ramLink alloc h root path newpath = (Inr (), h')"
  shows "store_inv root h'"
proof -
  from run obtain x xn r where x: "h x = Some xn" "\<not> isDir xn"
    and add: "addNode alloc h newpath root x = (Inr r, h')"
    by (auto simp: ramLink_def split: sum.splits option.splits if_splits prod.splits)
  from addNode_Inr[OF add] obtain d fl dn n where
    dn: "h d = Some dn" "isDir dn" and n: "h x = Some n"
    and h': "x \<noteq> d \<longrightarrow>
                h' = h(d \<mapsto> dn\<lparr>data := data dn @ [\<lparr>name = fl, node = x\<rparr>]\<rparr>,
                       x \<mapsto> n\<lparr>nlink := nlink n + 1,
                                parent := (if parent n = 0 then d else parent n)\<rparr>)"
    by blast
  from n x have nf: "n = xn" by simp
  from dn x have xd: "x \<noteq> d" by auto
  define f1 where "f1 = xn\<lparr>nlink := nlink xn + 1, parent := (if parent xn = 0 then d else parent xn)\<rparr>"
  have eq: "h' = h(d \<mapsto> dn\<lparr>data := data dn @ [\<lparr>name = fl, node = x\<rparr>]\<rparr>, x \<mapsto> f1)"
    using h' xd nf by (simp add: f1_def)
  have "\<not> is_dir h x" using x by (simp add: is_dir_def)
  moreover have "\<not> isDir f1" using x(2) by (simp add: f1_def isDir_def)
  moreover have "data f1 = []" using inv_file_shape[OF inv x] by (simp add: f1_def)
  moreover have "nlink f1 = int (nedges h x) + 1"
    using inv_file_nlink[OF inv x] by (simp add: f1_def)
  ultimately show ?thesis
    unfolding eq using inv inv_nonzero[OF inv x(1)] dn by (intro pres_addfile)
qed

lemma inv_root_live: "store_inv root h \<Longrightarrow> h root \<noteq> None"
  by (auto simp: store_inv_def dest: is_dir_live)

lemma getParentDirectory_live:
  assumes inv: "store_inv root h" and a: "h a = None"
    and g: "getParentDirectory (h(a \<mapsto> v)) path root = Inr (d, fl)"
  shows "h d \<noteq> None"
proof -
  from getParentDirectory_Inr[OF g] obtain n where
    "pathfind (h(a \<mapsto> v)) (take n path) root = Inr d" by blast
  from pathfind_avoids_fresh[OF inv a inv_root_live[OF inv] this] show ?thesis .
qed

lemma is_dir_nonzero: "store_inv root h \<Longrightarrow> is_dir h p \<Longrightarrow> p \<noteq> 0"
  by (metis is_dir_live store_inv_def)

text \<open>A name that \<open>pathfind\<close> does not find in a directory is neither \<open>.\<close> nor \<open>..\<close>.\<close>

lemma absent_name_not_dots:
  assumes sh: "data dn = \<lparr>name = ''.'', node = d\<rparr> # \<lparr>name = ''..'', node = p\<rparr> # rest"
    and nz: "d \<noteq> 0" "p \<noteq> 0"
    and hd: "h d = Some dn" "isDir dn" and ns: "Split \<notin> set fl"
    and pf: "pathfind h fl d = Inl e"
  shows "fl \<noteq> ''.'' \<and> fl \<noteq> ''..''"
  using pf pathfind_single[of fl h d dn] ns hd sh nz
  by (auto split: if_splits option.splits)

lemma inv_mkdir:
  assumes inv: "store_inv root h" and fresh: "h a = None"
    and md: "(md OR S_IFDIR) AND S_IFMT = S_IFDIR"
    and run: "ramMkdir a alloc cuid cgid h root path md = (Inr (), h')"
  shows "store_inv root h'"
proof -
  define d0 where "d0 = zero_inode\<lparr>mode := md OR S_IFDIR, uid := cuid, gid := cgid\<rparr>"
  define h0 where "h0 = h(a \<mapsto> d0)"
  from run have a0: "a \<noteq> 0" by (auto simp: ramMkdir_def split: if_splits)
  from run a0 obtain r h1 where add: "addNode alloc h0 path root a = (Inr r, h1)"
    by (auto simp: ramMkdir_def h0_def d0_def split: prod.splits sum.splits)
  have dir0: "isDir d0" using md by (simp add: d0_def isDir_def)
  from addNode_Inr[OF add] obtain d fl dn n e where
    g: "getParentDirectory h0 path root = Inr (d, fl)" and pf: "pathfind h0 fl d = Inl e"
    and dn: "h0 d = Some dn" "isDir dn" and n: "h0 a = Some n" and r: "r = a"
    and h1: "a \<noteq> d \<longrightarrow>
                h1 = h0(d \<mapsto> dn\<lparr>data := data dn @ [\<lparr>name = fl, node = a\<rparr>]\<rparr>,
                       a \<mapsto> n\<lparr>nlink := nlink n + 1,
                                parent := (if parent n = 0 then d else parent n)\<rparr>)"
    by blast
  from n have nf: "n = d0" by (simp add: h0_def)
  from getParentDirectory_live[OF inv fresh g[unfolded h0_def]] fresh have ad: "a \<noteq> d" by auto
  with dn have hd: "h d = Some dn" by (simp add: h0_def)
  from inv_dir_shape[OF inv hd dn(2)] obtain p rest where
    sh: "data dn = \<lparr>name = ''.'', node = d\<rparr> # \<lparr>name = ''..'', node = p\<rparr> # rest"
    and pd: "is_dir h p" by metis
  have pz: "p \<noteq> 0" using inv pd by (rule is_dir_nonzero)
  from getParentDirectory_Inr[OF g] have ns: "Split \<notin> set fl" by blast
  from absent_name_not_dots[OF sh inv_nonzero[OF inv hd] pz dn ns pf]
  have nm: "fl \<noteq> ''.''" "fl \<noteq> ''..''" by auto
  define dn1 where "dn1 = dn\<lparr>data := data dn @ [\<lparr>name = fl, node = a\<rparr>]\<rparr>"
  define n1 where "n1 = d0\<lparr>nlink := 1, parent := d\<rparr>"
  have h1eq: "h1 = h0(d \<mapsto> dn1, a \<mapsto> n1)"
    using h1 ad nf by (simp add: dn1_def n1_def d0_def zero_inode_def)
  have h1a: "h1 a = Some n1" and h1d: "h1 d = Some dn1"
    using ad by (simp_all add: h1eq)
  have pn1: "parent n1 = d" by (simp add: n1_def)
  define f where "f = n1\<lparr>nlink := nlink n1 + 1,
                         data := [\<lparr>name = ''.'', node = a\<rparr>, \<lparr>name = ''..'', node = d\<rparr>]\<rparr>"
  from run a0 add r h1a h1d pn1 ad
  have eq0: "h' = h1(d \<mapsto> dn1\<lparr>nlink := nlink dn1 + 1\<rparr>, a \<mapsto> f)"
    by (simp add: ramMkdir_def h0_def[symmetric] d0_def[symmetric] f_def Let_def
             split: if_splits)
  have eq: "h' = h(d \<mapsto> dn\<lparr>data := data dn @ [\<lparr>name = fl, node = a\<rparr>], nlink := nlink dn + 1\<rparr>,
                   a \<mapsto> f)"
    unfolding eq0 h1eq h0_def dn1_def using ad by (simp add: fun_upd_twist)
  have "isDir f" using dir0 by (simp add: f_def n1_def isDir_def)
  moreover have "data f = [\<lparr>name = ''.'', node = a\<rparr>, \<lparr>name = ''..'', node = d\<rparr>]"
    by (simp add: f_def)
  moreover have "nlink f = 2" by (simp add: f_def n1_def)
  ultimately show ?thesis
    unfolding eq using inv fresh a0 hd dn(2) nm by (intro pres_newdir)
qed

text \<open>
  Where \<open>pathfind\<close> finds a name in a directory: the empty name and \<open>.\<close> give the
  directory itself, \<open>..\<close> gives its parent, and any other name the node of the first
  name cell that bears it.
\<close>

lemma found_cell:
  assumes sh: "data dn = \<lparr>name = ''.'', node = d\<rparr> # \<lparr>name = ''..'', node = p\<rparr> # rest"
    and hd: "h d = Some dn" "isDir dn" and ns: "Split \<notin> set fl"
    and pf: "pathfind h fl d = Inr x"
  shows "x = d \<or> (x = p \<and> fl = ''..'')
         \<or> (fl \<noteq> ''.'' \<and> fl \<noteq> ''..'' \<and>
            (\<exists>pre e post. rest = pre @ e # post \<and> name e = fl \<and> node e = x
                          \<and> (\<forall>y\<in>set pre. name y \<noteq> fl)))"
proof (cases "fl = [] \<or> fl = ''.'' \<or> fl = ''..''")
  case True
  with pf pathfind_single[of fl h d dn] ns hd sh show ?thesis
    by (auto split: if_splits)
next
  case False
  with pf pathfind_single[of fl h d dn] ns hd sh
  obtain e where fe: "find (\<lambda>e. name e = fl) rest = Some e" and x: "node e = x"
    by (auto split: if_splits option.splits)
  from find_split[OF fe] x False show ?thesis by blast
qed

lemma inv_release:
  assumes inv: "store_inv root h"
    and run: "releaseNode h path root = (Inr (), h')"
  shows "store_inv root h'"
proof -
  from run obtain d fl where g: "getParentDirectory h path root = Inr (d, fl)"
    by (auto simp: releaseNode_def split: sum.splits)
  from getParentDirectory_Inr[OF g] obtain dn where
    hd: "h d = Some dn" and dir: "isDir dn" and ns: "Split \<notin> set fl" by blast
  from run g obtain x where pf: "pathfind h fl d = Inr x"
    by (auto simp: releaseNode_def split: sum.splits)
  from run g pf obtain xn where hx: "h x = Some xn"
    by (auto simp: releaseNode_def split: option.splits)
  from inv_dir_shape[OF inv hd dir] obtain p rest where
    sh: "data dn = \<lparr>name = ''.'', node = d\<rparr> # \<lparr>name = ''..'', node = p\<rparr> # rest"
    and dd: "dotdot h d = p" and pd: "is_dir h p" by metis
  note fc = found_cell[OF sh hd dir ns pf]
  show ?thesis
  proof (cases "isDir xn")
    case True
    from run g pf hx True have len: "length (data xn) = 2"
      by (auto simp: releaseNode_def isEmpty_def split: if_splits)
    from inv_dir_shape[OF inv hx True] len obtain px where
      shx: "data xn = [\<lparr>name = ''.'', node = x\<rparr>, \<lparr>name = ''..'', node = px\<rparr>]"
      by (metis (no_types, lifting) One_nat_def Suc_1 length_0_conv length_Cons nat.inject)
    have xd: "x \<noteq> d"
    proof
      assume "x = d"
      with hx hd have "xn = dn" by simp
      with run g pf hx True shx \<open>x = d\<close> show False
        by (simp add: releaseNode_def isEmpty_def Let_def split: if_splits)
    qed
    have xp: "\<not> (x = p \<and> fl = ''..'')"
    proof
      assume a: "x = p \<and> fl = ''..''"
      have "d \<noteq> root" using inv_dir_parts(1)[OF inv hd dir] dd a xd by auto
      from inv_edge_parent[OF inv hd dir this] dd a hx have "name_cells xn \<noteq> []" by auto
      with shx show False by (simp add: name_cells_def)
    qed
    from fc xd xp obtain pre e post where
      nm: "fl \<noteq> ''.''" "fl \<noteq> ''..''" and rest: "rest = pre @ e # post"
      and e: "name e = fl" "node e = x" and pre: "\<forall>y\<in>set pre. name y \<noteq> fl" by blast
    have rm: "removeEntry (data dn) fl
                = Inr (x, \<lparr>name = ''.'', node = d\<rparr> # \<lparr>name = ''..'', node = p\<rparr> # pre @ post)"
      using removeEntry_found[of "\<lparr>name = ''..'', node = p\<rparr> # pre" fl e
              "\<lparr>name = ''.'', node = d\<rparr>" post] nm e pre
      by (simp add: sh rest)
    from run g pf hx True len shx xd hd rm inv_nonzero[OF inv hx]
    have eq0: "h' = h(x := None, d \<mapsto> dn\<lparr>nlink := nlink dn - 1,
                   data := \<lparr>name = ''.'', node = d\<rparr> # \<lparr>name = ''..'', node = p\<rparr> # pre @ post\<rparr>)"
      by (simp add: releaseNode_def isEmpty_def Let_def split: if_splits)
    have "store_inv root (h(node e := None, d \<mapsto> dn\<lparr>nlink := nlink dn - 1,
                   data := \<lparr>name = ''.'', node = d\<rparr> # \<lparr>name = ''..'', node = p\<rparr> # pre @ post\<rparr>))"
      using inv hd dir _ _ _ _ True len
    proof (rule pres_rmdir)
      show "data dn = \<lparr>name = ''.'', node = d\<rparr> # \<lparr>name = ''..'', node = p\<rparr> # pre @ e # post"
        using sh rest by simp
    qed (use nm e hx in auto)
    thus ?thesis using eq0 e by simp
  next
    case False
    have xd: "x \<noteq> d" using hx hd dir False by auto
    have xp: "x \<noteq> p" using hx pd False by (auto simp: is_dir_def)
    from fc xd xp obtain pre e post where
      nm: "fl \<noteq> ''.''" "fl \<noteq> ''..''" and rest: "rest = pre @ e # post"
      and e: "name e = fl" "node e = x" and pre: "\<forall>y\<in>set pre. name y \<noteq> fl" by blast
    have rm: "removeEntry (data dn) fl
                = Inr (x, \<lparr>name = ''.'', node = d\<rparr> # \<lparr>name = ''..'', node = p\<rparr> # pre @ post)"
      using removeEntry_found[of "\<lparr>name = ''..'', node = p\<rparr> # pre" fl e
              "\<lparr>name = ''.'', node = d\<rparr>" post] nm e pre
      by (simp add: sh rest)
    define v where "v = (if nlink xn - 1 = 0 \<and> nopen xn = 0 then None
                         else Some (xn\<lparr>nlink := nlink xn - 1\<rparr>))"
    from run g pf hx False xd hd rm inv_nonzero[OF inv hx]
    have eq0: "h' = h(x := v, d \<mapsto> dn\<lparr>data :=
                   \<lparr>name = ''.'', node = d\<rparr> # \<lparr>name = ''..'', node = p\<rparr> # pre @ post\<rparr>)"
      by (auto simp: releaseNode_def Let_def v_def split: if_splits)
    have "store_inv root (h(node e := v, d \<mapsto> dn\<lparr>data :=
                   \<lparr>name = ''.'', node = d\<rparr> # \<lparr>name = ''..'', node = p\<rparr> # pre @ post\<rparr>))"
      using inv hd dir
    proof (rule pres_unlink)
      show "data dn = \<lparr>name = ''.'', node = d\<rparr> # \<lparr>name = ''..'', node = p\<rparr> # pre @ e # post"
        using sh rest by simp
      show "h (node e) = Some xn" using e hx by simp
      show "\<not> isDir xn" by (rule False)
      show "v = Some (xn\<lparr>nlink := nlink xn - 1\<rparr>) \<or> v = None \<and> nlink xn = 1"
        by (auto simp: v_def)
    qed
    thus ?thesis using eq0 e by simp
  qed
qed

lemma inv_move:
  assumes inv: "store_inv root h"
    and run: "moveNode alloc h path newpath root = (Inr nd, h')"
    and nodir: "\<not> is_dir h nd"
  shows "store_inv root h'"
proof -
  from run obtain d1 f1 where g1: "getParentDirectory h path root = Inr (d1, f1)"
    by (auto simp: moveNode_def split: sum.splits)
  from run g1 obtain d2 f2 where g2: "getParentDirectory h newpath root = Inr (d2, f2)"
    by (auto simp: moveNode_def split: sum.splits)
  from getParentDirectory_Inr[OF g1] obtain dn1 where
    hd1: "h d1 = Some dn1" and dir1: "isDir dn1" by blast
  from getParentDirectory_Inr[OF g2] obtain dn2 where
    hd2: "h d2 = Some dn2" and dir2: "isDir dn2" by blast
  from run g1 g2 hd1 obtain x list where
    rm: "removeEntry (data dn1) f1 = Inr (x, list)"
    by (auto simp: moveNode_def split: sum.splits)
  from inv_dir_shape[OF inv hd1 dir1] obtain p rest where
    sh1: "data dn1 = \<lparr>name = ''.'', node = d1\<rparr> # \<lparr>name = ''..'', node = p\<rparr> # rest"
    and nc1: "name_cells dn1 = rest" and pd: "is_dir h p" by metis
  from inv_dir_shape[OF inv hd2 dir2] have ne2: "data dn2 \<noteq> []" by (metis list.distinct(1))
  define h1 where "h1 = h(d1 \<mapsto> dn1\<lparr>data := list\<rparr>)"
  define nw where "nw = (if d2 = d1 then dn1\<lparr>data := list\<rparr> else dn2)"
  have h1d2: "h1 d2 = Some nw" using hd2 by (simp add: h1_def nw_def)
  from removeEntry_Inr[OF rm[unfolded sh1]] obtain pre0 e post where
    dec: "\<lparr>name = ''..'', node = p\<rparr> # rest = pre0 @ e # post"
    and e: "x = node e" and l: "list = \<lparr>name = ''.'', node = d1\<rparr> # pre0 @ post" by blast
  from run g1 g2 hd1 rm h1d2 have xnd: "x = nd" and x0: "x \<noteq> 0"
    and h'0: "\<exists>list2. addEntry alloc (data nw) f2 = Inr list2
               \<and> h' = setNewEntry (h1(d2 \<mapsto> nw\<lparr>data := list2\<rparr>)) d2 x"
    by (auto simp: moveNode_def Let_def h1_def[symmetric] split: if_splits sum.splits)
  have "pre0 \<noteq> []"
  proof
    assume "pre0 = []"
    with dec have "e = \<lparr>name = ''..'', node = p\<rparr>" by simp
    with e xnd pd nodir show False by simp
  qed
  with dec obtain pre where pre0: "pre0 = \<lparr>name = ''..'', node = p\<rparr> # pre"
    and rest: "rest = pre @ e # post" by (cases pre0) auto
  have l': "list = \<lparr>name = ''.'', node = d1\<rparr> # \<lparr>name = ''..'', node = p\<rparr> # pre @ post"
    using l pre0 by simp
  have "e \<in> set (name_cells dn1)" using nc1 rest by simp
  from inv_cells_live[OF inv hd1 this] e obtain xn where hx: "h x = Some xn" by auto
  have xf: "\<not> isDir xn" using nodir xnd hx by (simp add: is_dir_def)
  have nwne: "data nw \<noteq> []" using ne2 l' by (simp add: nw_def)
  from h'0 have h'1: "h' = h1(d2 \<mapsto> nw\<lparr>data := data nw @ [\<lparr>name = f2, node = x\<rparr>]\<rparr>)"
    by (auto simp: addEntry_eq setNewEntry_def setLastNode_snoc split: if_splits)
  define c where "c = \<lparr>name = f2, node = x\<rparr>"
  define xn' where "xn' = xn\<lparr>nlink := nlink xn + 1\<rparr>"
  define hm where "hm = h(d2 \<mapsto> dn2\<lparr>data := data dn2 @ [c]\<rparr>, x \<mapsto> xn')"
  have invm: "store_inv root hm"
    unfolding hm_def c_def using inv x0 _ hd2 dir2
  proof (rule pres_addfile)
    show "\<not> is_dir h x" using nodir xnd by simp
    show "\<not> isDir xn'" using xf by (simp add: xn'_def isDir_def)
    show "data xn' = []" using inv_file_shape[OF inv hx xf] by (simp add: xn'_def)
    show "nlink xn' = int (nedges h x) + 1" using inv_file_nlink[OF inv hx xf] by (simp add: xn'_def)
  qed
  have xd1: "x \<noteq> d1" and xd2: "x \<noteq> d2" using hx xf hd1 dir1 hd2 dir2 by auto
  define dm where "dm = (if d1 = d2 then dn2\<lparr>data := data dn2 @ [c]\<rparr> else dn1)"
  define postm where "postm = (if d1 = d2 then post @ [c] else post)"
  have hmd1: "hm d1 = Some dm" using hd1 xd1 by (auto simp: hm_def dm_def)
  have dirm: "isDir dm" using dir1 dir2 by (simp add: dm_def isDir_def)
  have shm: "data dm = \<lparr>name = ''.'', node = d1\<rparr> # \<lparr>name = ''..'', node = p\<rparr> # pre @ e # postm"
    using sh1 rest hd1 hd2 by (auto simp: dm_def postm_def)
  have hmx: "hm (node e) = Some xn'" using e by (simp add: hm_def)
  have "store_inv root (hm(node e := Some (xn'\<lparr>nlink := nlink xn' - 1\<rparr>),
          d1 \<mapsto> dm\<lparr>data := \<lparr>name = ''.'', node = d1\<rparr> # \<lparr>name = ''..'', node = p\<rparr> # pre @ postm\<rparr>))"
    using invm hmd1 dirm shm hmx
  proof (rule pres_unlink)
    show "\<not> isDir xn'" using xf by (simp add: xn'_def isDir_def)
  qed simp
  moreover have "hm(node e := Some (xn'\<lparr>nlink := nlink xn' - 1\<rparr>),
          d1 \<mapsto> dm\<lparr>data := \<lparr>name = ''.'', node = d1\<rparr> # \<lparr>name = ''..'', node = p\<rparr> # pre @ postm\<rparr>)
        = h'"
  proof (rule ext)
    fix y
    have bk: "xn'\<lparr>nlink := nlink xn' - 1\<rparr> = xn" by (simp add: xn'_def)
    show "(hm(node e := Some (xn'\<lparr>nlink := nlink xn' - 1\<rparr>),
          d1 \<mapsto> dm\<lparr>data := \<lparr>name = ''.'', node = d1\<rparr> # \<lparr>name = ''..'', node = p\<rparr> # pre @ postm\<rparr>)) y
        = h' y"
      unfolding h'1 h1_def hm_def bk
      using e hx hd1 hd2 xd1 xd2 l'
      by (auto simp: dm_def postm_def nw_def c_def)
  qed
  ultimately show ?thesis by simp
qed

text \<open>Every store built by successful calls satisfies the invariant.\<close>

lemma reach_inv: "reach root h \<Longrightarrow> store_inv root h"
proof (induction rule: reach.induct)
  case fresh
  then show ?case by (rule inv_fresh)
next
  case (mkdir h a md alloc cuid cgid path h')
  then show ?case by (blast intro: inv_mkdir)
next
  case (mknod h a alloc cuid cgid path md h')
  then show ?case by (blast intro: inv_mknod)
next
  case (link h alloc path newpath h')
  then show ?case by (blast intro: inv_link)
next
  case (release h path h')
  then show ?case by (blast intro: inv_release)
next
  case (move h alloc path newpath nd h')
  then show ?case by (blast intro: inv_move)
qed

paragraph \<open>The link counts of directories\<close>

lemma reach_store_a: "reach 1 store_a"
proof -
  have "reach 1 (newFilesystem 1)" by (rule reach.fresh) simp
  moreover have "newFilesystem 1 2 = None" by (simp add: newFilesystem_def)
  moreover have "((0x1ED :: 32 word) OR S_IFDIR) AND S_IFMT = S_IFDIR"
    by (simp add: consts_defs)
  moreover have "ramMkdir 2 True 0 0 (newFilesystem 1) 1 ''/a'' 0x1ED = (Inr (), store_a)"
    unfolding store_a_def by (rule prod_eqI) (simp_all add: fresh_eq op_defs consts_defs)
  ultimately show ?thesis by (rule reach.mkdir)
qed

text \<open>
  C9, as the code has it.  In every store built from a fresh filesystem by successful
  calls of \<open>ramMkdir\<close>, \<open>ramMknod\<close>, \<open>ramLink\<close>, \<open>releaseNode\<close> and of \<open>moveNode\<close> on
  inodes that are not directories, the link count of every directory other than the
  root is 2 plus the number of its child subdirectories, and the link count of the
  root is 3 plus that number.
\<close>

theorem directory_link_count:
  assumes "reach root h" and "h a = Some n" and "isDir n"
  shows "nlink n = (if a = root then 3 else 2) + int (length (children h n))"
  using inv_dir_parts(3)[OF reach_inv[OF assms(1)] assms(2,3)] .

theorem directory_link_count_witness:
  "reach 1 store_a
   \<and> isDir (the (store_a 1)) \<and> length (children store_a (the (store_a 1))) = 1
   \<and> nlink (the (store_a 1)) = 3 + int (length (children store_a (the (store_a 1))))
   \<and> isDir (the (store_a 2)) \<and> length (children store_a (the (store_a 2))) = 0
   \<and> nlink (the (store_a 2)) = 2 + int (length (children store_a (the (store_a 2))))"
proof -
  have s1: "store_a 1 = Some (the (store_a 1))" and s2: "store_a 2 = Some (the (store_a 2))"
    and d1: "isDir (the (store_a 1))" and d2: "isDir (the (store_a 2))"
    by (simp_all add: store_a_eq isDir_def consts_defs)
  have c1: "length (children store_a (the (store_a 1))) = 1"
    and c2: "length (children store_a (the (store_a 2))) = 0"
    by (simp_all add: store_a_eq children_def is_dir_def isDir_def consts_defs)
  from directory_link_count[OF reach_store_a s1 d1] directory_link_count[OF reach_store_a s2 d2]
    reach_store_a d1 d2 c1 c2
  show ?thesis by simp
qed

text \<open>
  C9 with the count 2 for every directory fails on the fresh filesystem: its root
  is a directory with no child subdirectory and link count 3, not 2.
\<close>

theorem fresh_root_link_count_counterexample:
  "reach 1 (newFilesystem 1)
   \<and> isDir (the (newFilesystem 1 1))
   \<and> children (newFilesystem 1) (the (newFilesystem 1 1)) = []
   \<and> nlink (the (newFilesystem 1 1)) = 3
   \<and> nlink (the (newFilesystem 1 1))
       \<noteq> 2 + int (length (children (newFilesystem 1) (the (newFilesystem 1 1))))"
proof -
  have "reach 1 (newFilesystem 1)" by (rule reach.fresh) simp
  thus ?thesis
    by (simp add: newFilesystem_def zero_inode_def children_def is_dir_def isDir_def consts_defs)
qed

text \<open>
  Moving a directory is outside the stores considered above.  After \<open>mkdir /a\<close>,
  \<open>mkdir /a/c\<close> and the move of \<open>/a/c\<close> to \<open>/c\<close>, all successful, \<open>/a\<close> (inode 2) has no
  child subdirectory and link count 3, the root has two child subdirectories and
  link count 4, and the \<open>..\<close> of \<open>/c\<close> (inode 3) still points at \<open>/a\<close>.
\<close>

lemma directory_move_link_counts:
  "fst (ramMkdir 2 True 0 0 (newFilesystem 1) 1 ''/a'' 0x1ED) = Inr ()
   \<and> fst (ramMkdir 3 True 0 0 store_a 1 ''/a/c'' 0x1ED) = Inr ()
   \<and> moveNode True store_ac ''/a/c'' ''/c'' 1 = (Inr 3, store_c)
   \<and> children store_c (the (store_c 2)) = [] \<and> nlink (the (store_c 2)) = 3
   \<and> length (children store_c (the (store_c 1))) = 2 \<and> nlink (the (store_c 1)) = 4
   \<and> dotdot store_c 3 = 2"
proof -
  have "moveNode True store_ac ''/a/c'' ''/c'' 1 = (Inr 3, store_c)"
    unfolding store_c_def by (rule prod_eqI) (simp_all add: store_ac_eq op_defs consts_defs)
  thus ?thesis
    by (simp add: fresh_eq store_a_eq store_c_eq op_defs consts_defs
        children_def is_dir_def isDir_def dotdot_def)
qed

end
